theory Spec2Isabelle
  imports Main
begin

text \<open>
  A model of \<^verbatim>\<open>lib/compiler.js\<close> of gulp-tsc: the constructor and its options, the
  argument list of the compiler, the tasks of one invocation in their waterfall, the
  registry of running invocations with its abort protocol, and the transforms that
  publish the compiler's output. JavaScript values are a datatype, exceptions are values
  of a sum type, asynchronous operations are answered by an explicit world, and what an
  invocation does is recorded in a trace. The definitions come first, the facts proved
  about them after.
\<close>

section \<open>POSIX paths, as Node's \<^verbatim>\<open>path\<close> module computes them\<close>

text \<open>
  \<^verbatim>\<open>lib/compiler.js\<close> calls \<^verbatim>\<open>path.resolve\<close>, \<^verbatim>\<open>path.relative\<close>, \<^verbatim>\<open>path.normalize\<close>
  and \<^verbatim>\<open>path.dirname\<close> of Node's standard library. The library is no part of the
  repository; the functions below give its POSIX flavour (\<^verbatim>\<open>path.sep\<close> is \<^verbatim>\<open>/\<close>) on
  byte strings, following the library's algorithm: a path is split at the separator, empty
  segments are dropped, \<^verbatim>\<open>.\<close> and \<^verbatim>\<open>..\<close> are resolved from the right.
  The working directory \<^verbatim>\<open>process.cwd()\<close> is an explicit argument \<open>wd\<close>.
\<close>

definition sep :: char where
  "sep = CHR ''/''"

text \<open>\<^verbatim>\<open>s.split('/')\<close>: the pieces between separators, the empty ones included.\<close>

fun splitSep :: "string \<Rightarrow> string list" where
  "splitSep [] = [[]]"
| "splitSep (x # xs) =
     (if x = sep then [] # splitSep xs
      else (case splitSep xs of [] \<Rightarrow> [[x]] | y # ys \<Rightarrow> (x # y) # ys))"

text \<open>\<^verbatim>\<open>s.split('/').filter(function (p) { return !!p; })\<close>\<close>

definition segments :: "string \<Rightarrow> string list" where
  "segments s = filter (\<lambda>p. p \<noteq> []) (splitSep s)"

text \<open>\<^verbatim>\<open>parts.join('/')\<close>\<close>

fun joinSep :: "string list \<Rightarrow> string" where
  "joinSep [] = []"
| "joinSep [p] = p"
| "joinSep (p # q # ps) = p @ sep # joinSep (q # ps)"

text \<open>
  \<^verbatim>\<open>normalizeArray(parts, allowAboveRoot)\<close> walks the parts from the last to the first,
  counting in \<open>up\<close> the \<^verbatim>\<open>..\<close> that still have to swallow a segment. \<open>dropUps\<close> is that
  loop on the reversed list; \<open>kept\<close> collects the surviving parts in their original order.
\<close>

fun dropUps :: "string list \<Rightarrow> nat \<Rightarrow> string list \<Rightarrow> string list \<times> nat" where
  "dropUps [] up kept = (kept, up)"
| "dropUps (p # ps) up kept =
     (if p = ''.'' then dropUps ps up kept
      else if p = ''..'' then dropUps ps (Suc up) kept
      else if 0 < up then dropUps ps (up - 1) kept
      else dropUps ps up (p # kept))"

definition normalizeArray :: "string list \<Rightarrow> bool \<Rightarrow> string list" where
  "normalizeArray parts allowAboveRoot =
     (case dropUps (rev parts) 0 [] of
        (kept, up) \<Rightarrow> if allowAboveRoot then replicate up ''..'' @ kept else kept)"

definition isAbsolute :: "string \<Rightarrow> bool" where
  "isAbsolute p = (case p of [] \<Rightarrow> False | x # _ \<Rightarrow> x = sep)"

text \<open>
  The loop of \<^verbatim>\<open>path.resolve\<close>: the arguments from the last to the first, then the working
  directory, until an absolute one has been prepended; empty arguments are skipped.
\<close>

fun resolveLoop :: "string list \<Rightarrow> string \<Rightarrow> string \<times> bool" where
  "resolveLoop [] resolvedPath = (resolvedPath, False)"
| "resolveLoop (p # ps) resolvedPath =
     (if p = [] then resolveLoop ps resolvedPath
      else if isAbsolute p then (p @ sep # resolvedPath, True)
      else resolveLoop ps (p @ sep # resolvedPath))"

definition path_resolve :: "string \<Rightarrow> string list \<Rightarrow> string" where
  "path_resolve wd args =
     (case resolveLoop (rev args @ [wd]) [] of
        (resolvedPath, resolvedAbsolute) \<Rightarrow>
          (let p = (if resolvedAbsolute then [sep] else [])
                     @ joinSep (normalizeArray (segments resolvedPath) (\<not> resolvedAbsolute))
           in if p = [] then ''.'' else p))"

text \<open>
  \<^verbatim>\<open>path.relative(from, to)\<close>: both are resolved, the leading segments they share are
  dropped, one \<^verbatim>\<open>..\<close> is written for each segment left of \<open>from\<close>, then what is left of
  \<open>to\<close>.
\<close>

fun samePartsLength :: "string list \<Rightarrow> string list \<Rightarrow> nat" where
  "samePartsLength (x # xs) (y # ys) = (if x = y then Suc (samePartsLength xs ys) else 0)"
| "samePartsLength _ _ = 0"

definition path_relative :: "string \<Rightarrow> string \<Rightarrow> string \<Rightarrow> string" where
  "path_relative wd from to =
     (let fromParts = segments (path_resolve wd [from]);
          toParts = segments (path_resolve wd [to]);
          n = samePartsLength fromParts toParts
      in joinSep (replicate (length fromParts - n) ''..'' @ drop n toParts))"


text \<open>
  \<^verbatim>\<open>path.dirname(p)\<close>: trailing separators are skipped, then the last segment; what stands
  before the separator in front of it is the directory. The first character is never
  looked at by the scan, so a separator found there counts as none.
\<close>

definition path_dirname :: "string \<Rightarrow> string" where
  "path_dirname p =
     (if p = [] then ''.''
      else
        (let hasRoot = isAbsolute p;
             r = dropWhile (\<lambda>c. c \<noteq> sep) (dropWhile (\<lambda>c. c = sep) (rev p))
         in if length r \<le> 1 then (if hasRoot then ''/'' else ''.'')
            else if hasRoot \<and> length r = 2 then ''//''
            else rev (tl r)))"



section \<open>JavaScript values\<close>

text \<open>
  Errors are values. \<open>Error m\<close> is \<^verbatim>\<open>new Error(m)\<close>; \<open>TypeError m\<close> is what the engine
  or a library raises when a value has the wrong type (a method call on a non-string, a
  non-string given to \<^verbatim>\<open>path.resolve\<close>).
\<close>

datatype js_error = Error string | TypeError string


text \<open>
  A vinyl file, as \<^verbatim>\<open>vinyl-fs\<close> hands it to the pipeline: \<^verbatim>\<open>cwd\<close>, \<^verbatim>\<open>base\<close>, \<^verbatim>\<open>path\<close> and
  \<^verbatim>\<open>contents\<close> (a buffer, a stream or null), and the \<^verbatim>\<open>originalPath\<close> that
  \<^verbatim>\<open>fixOutputFilePath\<close> adds.
\<close>

datatype contents = Buffer string | Stream | NoContents

record vinyl =
  cwd :: string
  base :: string
  path :: string
  originalPath :: "string option"
  contents :: contents

text \<open>
  The values an option, a compiler version or a filter's result can be. Numbers are the
  integers; a function value is a path filter, called with the relative path and the file
  and taken to be pure; \<open>JObj\<close> is a plain object given by its own properties in
  iteration order; \<open>JFile\<close> is a vinyl file.
\<close>

datatype jsval =
    JUndefined
  | JNull
  | JBool bool
  | JNum int
  | JStr string
  | JFun "string \<Rightarrow> vinyl \<Rightarrow> jsval"
  | JObj "(string \<times> jsval) list"
  | JFile vinyl

fun truthy :: "jsval \<Rightarrow> bool" where
  "truthy JUndefined = False"
| "truthy JNull = False"
| "truthy (JBool b) = b"
| "truthy (JNum n) = (n \<noteq> 0)"
| "truthy (JStr s) = (s \<noteq> [])"
| "truthy (JFun f) = True"
| "truthy (JObj ps) = True"
| "truthy (JFile f) = True"

text \<open>\<^verbatim>\<open>a || b\<close>\<close>

definition js_or :: "jsval \<Rightarrow> jsval \<Rightarrow> jsval" where
  "js_or a b = (if truthy a then a else b)"



text \<open>
  \<^verbatim>\<open>s.toLowerCase()\<close> and \<^verbatim>\<open>s.toUpperCase()\<close> on the ASCII letters (other bytes are
  left as they are); on a value that is no string the method does not exist.
\<close>

definition lowerChar :: "char \<Rightarrow> char" where
  "lowerChar c =
     (let n = (of_char c :: nat) in if 65 \<le> n \<and> n \<le> 90 then char_of (n + 32) else c)"

definition upperChar :: "char \<Rightarrow> char" where
  "upperChar c =
     (let n = (of_char c :: nat) in if 97 \<le> n \<and> n \<le> 122 then char_of (n - 32) else c)"

fun toLowerCase :: "jsval \<Rightarrow> js_error + jsval" where
  "toLowerCase (JStr s) = Inr (JStr (map lowerChar s))"
| "toLowerCase _ = Inl (TypeError ''toLowerCase is not a function'')"

fun toUpperCase :: "jsval \<Rightarrow> js_error + jsval" where
  "toUpperCase (JStr s) = Inr (JStr (map upperChar s))"
| "toUpperCase _ = Inl (TypeError ''toUpperCase is not a function'')"

text \<open>\<^verbatim>\<open>path.resolve(a, b)\<close> with a string \<open>a\<close> and any value \<open>b\<close>: a non-string raises.\<close>

fun resolveValue :: "string \<Rightarrow> string \<Rightarrow> jsval \<Rightarrow> js_error + jsval" where
  "resolveValue wd a (JStr b) = Inr (JStr (path_resolve wd [a, b]))"
| "resolveValue wd a _ = Inl (TypeError ''Arguments to path.resolve must be strings'')"

text \<open>
  \<^verbatim>\<open>version == "1.5"\<close>, the loose comparison with that string: a string compares as a
  string; the other values are first turned into a number or a text, none of which is 1.5
  (\<^verbatim>\<open>true\<close> is 1, an integer is none, \<^verbatim>\<open>null\<close> and \<^verbatim>\<open>undefined\<close> equal only each
  other, an object prints as \<^verbatim>\<open>[object Object]\<close>).
\<close>

fun looseEq15 :: "jsval \<Rightarrow> bool" where
  "looseEq15 (JStr s) = (s = ''1.5'')"
| "looseEq15 _ = False"




section \<open>The compiler object\<close>

text \<open>
  The configuration is a flat object, option name to value. Reading a key that is not
  there gives \<^verbatim>\<open>undefined\<close>.
\<close>

type_synonym config = "string \<rightharpoonup> jsval"

definition opt :: "config \<Rightarrow> string \<Rightarrow> jsval" where
  "opt os k = (case os k of None \<Rightarrow> JUndefined | Some v \<Rightarrow> v)"

record compiler =
  sourceFiles :: "vinyl list"
  options :: config
  tscOptions :: config
  tempDestination :: "string option"
  tscArgumentsFile :: "string option"
  treeKeeperFile :: "string option"

text \<open>The defaults of the constructor, lines 25 to 48.\<close>

definition defaultOptions :: "jsval \<Rightarrow> config" where
  "defaultOptions defaultModule = map_of
     [(''tscPath'', JNull),
      (''tscSearch'', JNull),
      (''module'', defaultModule),
      (''target'', JStr ''ES3''),
      (''out'', JNull),
      (''outDir'', JNull),
      (''mapRoot'', JNull),
      (''sourceRoot'', JNull),
      (''allowbool'', JBool False),
      (''allowimportmodule'', JBool False),
      (''declaration'', JBool False),
      (''noImplicitAny'', JBool False),
      (''noResolve'', JBool False),
      (''removeComments'', JBool False),
      (''sourceMap'', JBool False),
      (''suppressImplicitAnyIndexErrors'', JBool False),
      (''tmpDir'', JStr []),
      (''noLib'', JBool False),
      (''keepTree'', JBool True),
      (''pathFilter'', JNull),
      (''safe'', JBool False),
      (''emitDecoratorMetadata'', JBool False)]"

text \<open>\<^verbatim>\<open>_.extend(dest, src)\<close>: every own key of \<open>src\<close> overrides; no \<open>src\<close>, no change.\<close>

definition extend_obj :: "config \<Rightarrow> config option \<Rightarrow> config" where
  "extend_obj dest src = (case src of None \<Rightarrow> dest | Some os \<Rightarrow> dest ++ os)"

text \<open>
  \<^verbatim>\<open>function Compiler(sourceFiles, options)\<close>. Either argument may be missing
  (\<open>None\<close>). \<^verbatim>\<open>options.target === 'ES6'\<close> is the strict comparison: the string itself.
\<close>

definition Compiler :: "vinyl list option \<Rightarrow> config option \<Rightarrow> compiler" where
  "Compiler files opts =
     (let defaultModule =
            (case opts of
               None \<Rightarrow> JStr ''commonjs''
             | Some os \<Rightarrow>
                 (case opt os ''target'' of
                    JStr t \<Rightarrow> if t = ''ES6'' then JNull else JStr ''commonjs''
                  | _ \<Rightarrow> JStr ''commonjs''));
          os1 = extend_obj (defaultOptions defaultModule) opts;
          os2 = os1(''sourceMap'' \<mapsto> js_or (opt os1 ''sourceMap'') (opt os1 ''sourcemap''));
          os3 = os2(''sourcemap'' := None)
      in \<lparr> sourceFiles = (case files of None \<Rightarrow> [] | Some fs \<Rightarrow> fs),
           options = os3,
           tscOptions = [''path'' \<mapsto> opt os3 ''tscPath'', ''search'' \<mapsto> opt os3 ''tscSearch''],
           tempDestination = None,
           tscArgumentsFile = None,
           treeKeeperFile = None \<rparr>)"

subsection \<open>The argument list\<close>

text \<open>\<^verbatim>\<open>args.push(x, y)\<close>\<close>

definition push :: "jsval list \<Rightarrow> jsval list \<Rightarrow> jsval list" where
  "push args xs = args @ xs"

text \<open>A step that may raise, followed by the rest.\<close>

definition andThen :: "js_error + 'a \<Rightarrow> ('a \<Rightarrow> js_error + 'b) \<Rightarrow> js_error + 'b" where
  "andThen r f = (case r of Inl e \<Rightarrow> Inl e | Inr x \<Rightarrow> f x)"

text \<open>
  \<^verbatim>\<open>if (this.tempDestination)\<close> and \<^verbatim>\<open>if (this.treeKeeperFile)\<close>: the string, when the
  field is set and not empty.
\<close>

fun whenSet :: "string option \<Rightarrow> string option" where
  "whenSet None = None"
| "whenSet (Some s) = (if s = [] then None else Some s)"

text \<open>
  \<^verbatim>\<open>Compiler.prototype.buildTscArguments\<close>, line by line; \<open>ov\<close> reads
  \<^verbatim>\<open>this.options\<close>. Lines 69 and 70 call a string method on the option and line 87
  resolves it as a path, so these three raise on a value that is set and no string.
\<close>

definition buildTscArguments :: "string \<Rightarrow> compiler \<Rightarrow> jsval \<Rightarrow> js_error + jsval list" where
  "buildTscArguments wd c version0 =
     (let ov = opt (options c);
          args = [];
          version = (case version0 of JUndefined \<Rightarrow> JStr ''1.5'' | v \<Rightarrow> v)
      in
      andThen (if truthy (ov ''module'')
               then andThen (toLowerCase (ov ''module'')) (\<lambda>m. Inr (push args [JStr ''--module'', m]))
               else Inr args) (\<lambda>args.
      andThen (if truthy (ov ''target'')
               then andThen (toUpperCase (ov ''target'')) (\<lambda>t. Inr (push args [JStr ''--target'', t]))
               else Inr args) (\<lambda>args.
      let args = (if truthy (ov ''mapRoot'') then push args [JStr ''--mapRoot'', ov ''mapRoot''] else args);
          args = (if truthy (ov ''sourceRoot'') then push args [JStr ''--sourceRoot'', ov ''sourceRoot''] else args);
          args = (if truthy (ov ''allowbool'') then push args [JStr ''--allowbool''] else args);
          args = (if truthy (ov ''allowimportmodule'') then push args [JStr ''--allowimportmodule''] else args);
          args = (if truthy (ov ''suppressImplicitAnyIndexErrors'') \<and> looseEq15 version
                  then push args [JStr ''--suppressImplicitAnyIndexErrors''] else args);
          args = (if truthy (ov ''declaration'') then push args [JStr ''--declaration''] else args);
          args = (if truthy (ov ''noImplicitAny'') then push args [JStr ''--noImplicitAny''] else args);
          args = (if truthy (ov ''noResolve'') then push args [JStr ''--noResolve''] else args);
          args = (if truthy (ov ''removeComments'') then push args [JStr ''--removeComments''] else args);
          args = (if truthy (ov ''sourceMap'') then push args [JStr ''--sourcemap''] else args);
          args = (if truthy (ov ''noLib'') then push args [JStr ''--noLib''] else args);
          args = (if truthy (ov ''emitDecoratorMetadata'') then push args [JStr ''--emitDecoratorMetadata''] else args)
      in
      andThen (case whenSet (tempDestination c) of
                 Some tmp \<Rightarrow>
                   (let args = push args [JStr ''--outDir'', JStr tmp]
                    in if truthy (ov ''out'')
                       then andThen (resolveValue wd tmp (ov ''out''))
                              (\<lambda>p. Inr (push args [JStr ''--out'', p]))
                       else Inr args)
               | None \<Rightarrow>
                   if truthy (ov ''out'') then Inr (push args [JStr ''--out'', ov ''out''])
                   else Inr args) (\<lambda>args.
      let args = foldl (\<lambda>args f. push args [JStr (path f)]) args (sourceFiles c);
          args = (case whenSet (treeKeeperFile c) of
                    Some keeper \<Rightarrow> push args [JStr keeper]
                  | None \<Rightarrow> args)
      in Inr args))))"

subsection \<open>The argument list in pieces\<close>

text \<open>
  The same list seen as what each group of lines adds: lines 69 and 70, lines 71 to 82,
  lines 84 to 91, lines 93 to 96. Lemma \<open>buildTscArguments_pieces\<close> below shows that
  \<open>buildTscArguments\<close> is their concatenation. \<open>versionGate\<close> is the test of line 75 on
  the version as given, after the default of lines 65 to 67.
\<close>

definition moduleArgs :: "compiler \<Rightarrow> js_error + jsval list" where
  "moduleArgs c =
     (if truthy (opt (options c) ''module'')
      then andThen (toLowerCase (opt (options c) ''module'')) (\<lambda>m. Inr [JStr ''--module'', m])
      else Inr [])"

definition targetArgs :: "compiler \<Rightarrow> js_error + jsval list" where
  "targetArgs c =
     (if truthy (opt (options c) ''target'')
      then andThen (toUpperCase (opt (options c) ''target'')) (\<lambda>t. Inr [JStr ''--target'', t])
      else Inr [])"

definition versionGate :: "jsval \<Rightarrow> bool" where
  "versionGate version = looseEq15 (case version of JUndefined \<Rightarrow> JStr ''1.5'' | v \<Rightarrow> v)"

definition switchArgs :: "compiler \<Rightarrow> jsval \<Rightarrow> jsval list" where
  "switchArgs c version =
     (let ov = opt (options c) in
        (if truthy (ov ''mapRoot'') then [JStr ''--mapRoot'', ov ''mapRoot''] else [])
      @ (if truthy (ov ''sourceRoot'') then [JStr ''--sourceRoot'', ov ''sourceRoot''] else [])
      @ (if truthy (ov ''allowbool'') then [JStr ''--allowbool''] else [])
      @ (if truthy (ov ''allowimportmodule'') then [JStr ''--allowimportmodule''] else [])
      @ (if truthy (ov ''suppressImplicitAnyIndexErrors'') \<and> versionGate version
         then [JStr ''--suppressImplicitAnyIndexErrors''] else [])
      @ (if truthy (ov ''declaration'') then [JStr ''--declaration''] else [])
      @ (if truthy (ov ''noImplicitAny'') then [JStr ''--noImplicitAny''] else [])
      @ (if truthy (ov ''noResolve'') then [JStr ''--noResolve''] else [])
      @ (if truthy (ov ''removeComments'') then [JStr ''--removeComments''] else [])
      @ (if truthy (ov ''sourceMap'') then [JStr ''--sourcemap''] else [])
      @ (if truthy (ov ''noLib'') then [JStr ''--noLib''] else [])
      @ (if truthy (ov ''emitDecoratorMetadata'') then [JStr ''--emitDecoratorMetadata''] else []))"

definition destinationArgs :: "string \<Rightarrow> compiler \<Rightarrow> js_error + jsval list" where
  "destinationArgs wd c =
     (case whenSet (tempDestination c) of
        Some tmp \<Rightarrow>
          if truthy (opt (options c) ''out'')
          then andThen (resolveValue wd tmp (opt (options c) ''out''))
                 (\<lambda>p. Inr [JStr ''--outDir'', JStr tmp, JStr ''--out'', p])
          else Inr [JStr ''--outDir'', JStr tmp]
      | None \<Rightarrow>
          if truthy (opt (options c) ''out'') then Inr [JStr ''--out'', opt (options c) ''out'']
          else Inr [])"

definition fileArgs :: "compiler \<Rightarrow> jsval list" where
  "fileArgs c =
     map (\<lambda>f. JStr (path f)) (sourceFiles c)
     @ (case whenSet (treeKeeperFile c) of Some keeper \<Rightarrow> [JStr keeper] | None \<Rightarrow> [])"

section \<open>The lifecycle registry\<close>

text \<open>
  \<^verbatim>\<open>Compiler.running\<close>, \<^verbatim>\<open>Compiler.aborted\<close> and \<^verbatim>\<open>Compiler.abortCallbacks\<close>, shared by
  all compilers of the process. A callback is a label of type \<open>'cb\<close>; \<open>fired\<close> logs the
  callbacks that were called, in the order of the calls.
\<close>

record 'cb registry =
  running :: int
  aborted :: bool
  abortCallbacks :: "'cb list"
  fired :: "'cb list"

definition initialRegistry :: "'cb registry" where
  "initialRegistry = \<lparr> running = 0, aborted = False, abortCallbacks = [], fired = [] \<rparr>"

definition allAborted :: "'cb registry \<Rightarrow> 'cb registry" where
  "allAborted r =
     (let callbacks = abortCallbacks r
      in r\<lparr> aborted := False, abortCallbacks := [], fired := fired r @ callbacks \<rparr>)"

definition abortAll :: "'cb option \<Rightarrow> 'cb registry \<Rightarrow> 'cb registry" where
  "abortAll callback r =
     (let r1 = r\<lparr> aborted := True \<rparr>;
          r2 = (case callback of
                  None \<Rightarrow> r1
                | Some fn \<Rightarrow> r1\<lparr> abortCallbacks := abortCallbacks r1 @ [fn] \<rparr>)
      in if running r2 = 0 then allAborted r2 else r2)"

definition isAborted :: "'cb registry \<Rightarrow> bool" where
  "isAborted r = aborted r"

text \<open>\<^verbatim>\<open>Compiler._start\<close> counts the compiler in; its listener \<open>onEnd\<close> runs at the \<^verbatim>\<open>end\<close> event.\<close>

definition start :: "'cb registry \<Rightarrow> 'cb registry" where
  "start r = r\<lparr> running := running r + 1 \<rparr>"

definition onEnd :: "'cb registry \<Rightarrow> 'cb registry" where
  "onEnd r =
     (let r1 = r\<lparr> running := running r - 1 \<rparr>
      in if running r1 = 0 \<and> aborted r1 then allAborted r1 else r1)"

text \<open>What can happen to the registry: an abort request, a compiler starting, one ending.\<close>

datatype 'cb reg_event = AbortAll "'cb option" | Started | Ended

fun regStep :: "'cb registry \<Rightarrow> 'cb reg_event \<Rightarrow> 'cb registry" where
  "regStep r (AbortAll callback) = abortAll callback r"
| "regStep r Started = start r"
| "regStep r Ended = onEnd r"

definition regRun :: "'cb registry \<Rightarrow> 'cb reg_event list \<Rightarrow> 'cb registry" where
  "regRun r es = foldl regStep r es"

section \<open>One invocation\<close>

text \<open>
  What the world answers during \<^verbatim>\<open>compile\<close>: the working directory, the results of
  \<^verbatim>\<open>temp.mkdir\<close> and \<^verbatim>\<open>temp.open\<close> (an error, or the path created), whether writing
  the placeholder raises, the version given to the callback of \<^verbatim>\<open>getVersion\<close>, the
  error of \<^verbatim>\<open>fs.writeFile\<close>, the code of the process's \<^verbatim>\<open>exit\<close> event (\<open>None\<close>
  is \<^verbatim>\<open>null\<close>, a process killed by a signal), and the error the output stream ends
  with. \<open>meanwhile k\<close> lists what happens to the registry while the invocation waits
  for its \<open>k\<close>-th asynchronous operation. The module \<^verbatim>\<open>lib/tsc.js\<close>, which finds and
  runs the compiler, is not among the sources: what its \<^verbatim>\<open>version\<close> and \<^verbatim>\<open>exec\<close> answer
  is part of the world (\<open>tscVersion\<close>, \<open>exitCode\<close>).
\<close>

record 'cb world =
  processCwd :: string
  tempMkdir :: "string \<Rightarrow> js_error + string"
  tempOpen :: "string \<Rightarrow> js_error + string"
  writeKeeper :: "js_error option"
  tscVersion :: jsval
  writeFile :: "js_error option"
  exitCode :: "int option"
  outputError :: "js_error option"
  meanwhile :: "nat \<Rightarrow> 'cb reg_event list"

text \<open>What an observer sees of an invocation, in order.\<close>

datatype event =
    EmitStart
  | Mkdir string
  | OpenTemp string
  | WriteKeeper string
  | GetVersion
  | WriteArguments string "jsval list"
  | Exec string
  | ProcessOutputFiles
  | Cleanup
  | EmitEnd
  | Callback "js_error option"
  | Uncaught js_error

record 'cb cstate =
  self :: compiler
  reg :: "'cb registry"
  trace :: "event list"

definition emit :: "event \<Rightarrow> 'cb cstate \<Rightarrow> 'cb cstate" where
  "emit e s = s\<lparr> trace := trace s @ [e] \<rparr>"

definition await :: "'cb world \<Rightarrow> nat \<Rightarrow> 'cb cstate \<Rightarrow> 'cb cstate" where
  "await w k s = s\<lparr> reg := regRun (reg s) (meanwhile w k) \<rparr>"

text \<open>
  A task of the waterfall either calls back, with an error or without, or raises outside
  any callback, and then nothing calls back any more.
\<close>

datatype outcome = Done "js_error option" | Thrown js_error

type_synonym 'cb task = "'cb cstate \<Rightarrow> outcome \<times> 'cb cstate"

text \<open>\<^verbatim>\<open>async.waterfall\<close>: the tasks in order, up to the first that does not succeed.\<close>

fun waterfall :: "'cb task list \<Rightarrow> 'cb task" where
  "waterfall [] s = (Done None, s)"
| "waterfall (t # ts) s =
     (case t s of
        (Done None, s') \<Rightarrow> waterfall ts s'
      | (r, s') \<Rightarrow> (r, s'))"

definition checkAborted :: "'cb task" where
  "checkAborted s =
     (if isAborted (reg s) then (Done (Some (Error ''aborted'')), s) else (Done None, s))"

definition makeTempDestinationDir :: "'cb world \<Rightarrow> 'cb task" where
  "makeTempDestinationDir w s =
     (case opt (options (self s)) ''tmpDir'' of
        JStr tmpDir \<Rightarrow>
          (let dir = path_resolve (processCwd w) [processCwd w, tmpDir];
               s1 = await w 0 (emit (Mkdir dir) s)
           in case tempMkdir w dir of
                Inl err \<Rightarrow> (Done (Some err), s1)
              | Inr dirPath \<Rightarrow>
                  (Done None, s1\<lparr> self := (self s1)\<lparr> tempDestination := Some dirPath \<rparr> \<rparr>))
      | _ \<Rightarrow> (Thrown (TypeError ''Arguments to path.resolve must be strings''), s))"








text \<open>
  The tasks that come before \<^verbatim>\<open>makeTreeKeeperFile\<close>, and those that come before
  \<^verbatim>\<open>runTsc\<close>: prefixes of \<open>tasks\<close>, named to speak of an invocation that has come that
  far.
\<close>

definition beforeKeeper :: "'cb world \<Rightarrow> 'cb task list" where
  "beforeKeeper w = [checkAborted, makeTempDestinationDir w, checkAborted]"





section \<open>Publishing the output\<close>

text \<open>
  \<^verbatim>\<open>processOutputFiles\<close> pipes the files found under the temporary destination through
  up to three transforms, lines 226 to 233.
\<close>

datatype transform = FixOutputFilePath | FixSourcemapPath | FixReferencePath

definition outputTransforms :: "compiler \<Rightarrow> transform list" where
  "outputTransforms c =
     [FixOutputFilePath]
     @ (if truthy (opt (options c) ''sourceMap'') \<and> \<not> truthy (opt (options c) ''sourceRoot'')
        then [FixSourcemapPath] else [])
     @ (if truthy (opt (options c) ''declaration'') \<and> truthy (opt (options c) ''outDir'')
        then [FixReferencePath] else [])"

text \<open>
  What a transform does with one file: it pushes an item on, pushes nothing, ends with
  \<^verbatim>\<open>done(e)\<close>, or raises.
\<close>

datatype 'a step = Pushed 'a | Dropped | Failed js_error | Raised js_error










text \<open>\<^verbatim>\<open>/\.js\.map/.test(s)\<close>: the text occurs somewhere in \<open>s\<close>.\<close>

fun occursIn :: "string \<Rightarrow> string \<Rightarrow> bool" where
  "occursIn pat [] = (pat = [])"
| "occursIn pat (x # xs) = (take (length pat) (x # xs) = pat \<or> occursIn pat xs)"

text \<open>
  A parsed source map: its \<^verbatim>\<open>sources\<close>, absent or a list of strings, and the rest of it.
  \<^verbatim>\<open>JSON.parse\<close> and \<^verbatim>\<open>JSON.stringify\<close> are arguments of the transform.
\<close>

record 'r sourceMap =
  sources :: "string list option"
  others :: 'r

text \<open>The function mapped over \<^verbatim>\<open>sources\<close>, lines 313 to 318, where \<^verbatim>\<open>path.sep\<close> is \<^verbatim>\<open>/\<close>.\<close>

definition rewriteSource :: "string \<Rightarrow> string \<Rightarrow> string \<Rightarrow> string \<Rightarrow> string" where
  "rewriteSource wd orig newPath sourcePath =
     (let sourcePath = path_resolve wd [path_dirname orig, sourcePath];
          sourcePath = path_relative wd (path_dirname newPath) sourcePath
      in sourcePath)"

definition fixSourcemapPath ::
  "string \<Rightarrow> (string \<Rightarrow> js_error + 'r sourceMap) \<Rightarrow> ('r sourceMap \<Rightarrow> string) \<Rightarrow> vinyl \<Rightarrow> vinyl step"
where
  "fixSourcemapPath wd parse stringify file =
     (case contents file of
        Buffer text \<Rightarrow>
          if \<not> occursIn ''.js.map'' (path file) then Pushed file
          else
            (case parse text of
               Inl e \<Rightarrow> Raised e
             | Inr m \<Rightarrow>
                 (case sources m of
                    None \<Rightarrow> Pushed file
                  | Some srcs \<Rightarrow>
                      if 0 < length srcs
                      then (case originalPath file of
                              None \<Rightarrow> Raised (TypeError ''Path must be a string'')
                            | Some orig \<Rightarrow>
                                Pushed (file\<lparr> contents := Buffer (stringify
                                  (m\<lparr> sources := Some (map (rewriteSource wd orig (path file)) srcs) \<rparr>)) \<rparr>))
                      else Pushed file))
      | _ \<Rightarrow> Pushed file)"

section \<open>Facts about paths\<close>

lemma splitSep_not_Nil: "splitSep s \<noteq> []"
  by (induction s) (auto split: list.splits)

lemma splitSep_append_sep: "splitSep (a @ sep # b) = splitSep a @ splitSep b"
proof (induction a)
  case Nil
  show ?case by simp
next
  case (Cons x a)
  obtain y ys where s: "splitSep a = y # ys"
    using splitSep_not_Nil [of a] by (cases "splitSep a") auto
  show ?case using Cons s by simp
qed

lemma segments_append_sep: "segments (a @ sep # b) = segments a @ segments b"
  by (simp add: segments_def splitSep_append_sep)

lemma segments_Nil: "segments [] = []"
  by (simp add: segments_def)

lemma segments_sep_Cons: "segments (sep # b) = segments b"
  using segments_append_sep [of "[]" b] by (simp add: segments_Nil)

lemma segments_snoc_sep: "segments (a @ [sep]) = segments a"
  using segments_append_sep [of a "[]"] by (simp add: segments_Nil)

lemma segments_append:
  assumes "a = [] \<or> last a = sep"
  shows "segments (a @ b) = segments a @ segments b"
proof (cases "a = []")
  case True
  then show ?thesis by (simp add: segments_Nil)
next
  case False
  with assms have "a = butlast a @ [sep]"
    by (metis append_butlast_last_id)
  then obtain a' where a: "a = a' @ [sep]" ..
  have "segments (a @ b) = segments (a' @ sep # b)" by (simp add: a)
  also have "\<dots> = segments a' @ segments b" by (rule segments_append_sep)
  finally show ?thesis by (simp add: a segments_snoc_sep)
qed

lemma splitSep_no_sep: "sep \<notin> set s \<Longrightarrow> splitSep s = [s]"
  by (induction s) auto

lemma segments_single: "sep \<notin> set s \<Longrightarrow> s \<noteq> [] \<Longrightarrow> segments s = [s]"
  by (simp add: segments_def splitSep_no_sep)

lemma splitSep_parts: "p \<in> set (splitSep s) \<Longrightarrow> sep \<notin> set p"
proof (induction s arbitrary: p)
  case Nil
  then show ?case by simp
next
  case (Cons x s)
  obtain y ys where s: "splitSep s = y # ys"
    using splitSep_not_Nil [of s] by (cases "splitSep s") auto
  show ?case
  proof (cases "x = sep")
    case True
    with Cons show ?thesis by auto
  next
    case False
    with Cons.prems s have "p = x # y \<or> p \<in> set ys" by simp
    then show ?thesis
    proof
      assume "p = x # y"
      moreover have "sep \<notin> set y" using Cons.IH [of y] s by simp
      ultimately show ?thesis using False by auto
    next
      assume "p \<in> set ys"
      then show ?thesis using Cons.IH [of p] s by simp
    qed
  qed
qed

lemma segments_parts: "p \<in> set (segments s) \<Longrightarrow> p \<noteq> [] \<and> sep \<notin> set p"
  by (auto simp: segments_def dest: splitSep_parts)

lemma segments_joinSep:
  "\<forall>p \<in> set ps. p \<noteq> [] \<and> sep \<notin> set p \<Longrightarrow> segments (joinSep ps) = ps"
proof (induction ps rule: joinSep.induct)
  case 1
  show ?case by (simp add: segments_Nil)
next
  case (2 p)
  then show ?case by (simp add: segments_single)
next
  case (3 p q ps)
  have "segments (joinSep (p # q # ps)) = segments p @ segments (joinSep (q # ps))"
    by (simp add: segments_append_sep)
  with 3 show ?case by (simp add: segments_single)
qed

lemma joinSep_eq_Nil:
  "\<forall>p \<in> set ps. p \<noteq> [] \<Longrightarrow> joinSep ps = [] \<Longrightarrow> ps = []"
  by (induction ps rule: joinSep.induct) auto

lemma joinSep_hd:
  "ps \<noteq> [] \<Longrightarrow> \<forall>p \<in> set ps. p \<noteq> [] \<and> sep \<notin> set p \<Longrightarrow> \<not> isAbsolute (joinSep ps)"
proof (induction ps rule: joinSep.induct)
  case 1
  then show ?case by simp
next
  case (2 p)
  then show ?case by (cases p) (auto simp: isAbsolute_def)
next
  case (3 p q ps)
  then show ?case by (cases p) (auto simp: isAbsolute_def)
qed

lemma dropUps_kept:
  "dropUps ps up kept = (fst (dropUps ps up []) @ kept, snd (dropUps ps up []))"
proof (induction ps arbitrary: up kept)
  case Nil
  show ?case by simp
next
  case (Cons p ps)
  show ?case
  proof (cases "p = ''.'' \<or> p = ''..'' \<or> 0 < up")
    case True
    then show ?thesis
      using Cons.IH [of "Suc up" kept] Cons.IH [of "up - 1" kept] Cons.IH [of up kept]
      by auto
  next
    case False
    have a: "dropUps ps up (p # kept) = (fst (dropUps ps up []) @ p # kept, snd (dropUps ps up []))"
      by (rule Cons.IH)
    have b: "dropUps ps up [p] = (fst (dropUps ps up []) @ [p], snd (dropUps ps up []))"
      by (rule Cons.IH)
    have "dropUps (p # ps) up kept = dropUps ps up (p # kept)"
      using False by simp
    moreover have "dropUps (p # ps) up [] = dropUps ps up [p]"
      using False by simp
    ultimately show ?thesis by (simp only: a b fst_conv snd_conv append_assoc append_Cons append_Nil)
  qed
qed

lemma dropUps_append:
  "dropUps (xs @ ys) up kept = (case dropUps xs up kept of (k, u) \<Rightarrow> dropUps ys u k)"
  by (induction xs arbitrary: up kept) auto

lemma dropUps_clean:
  "\<forall>p \<in> set xs. p \<noteq> ''.'' \<and> p \<noteq> ''..'' \<Longrightarrow> dropUps xs 0 kept = (rev xs @ kept, 0)"
  by (induction xs arbitrary: kept) auto

lemma dropUps_replicate: "dropUps (replicate k ''..'') up kept = (kept, up + k)"
  by (induction k arbitrary: up) auto

lemma dropUps_set:
  "p \<in> set (fst (dropUps ps up kept)) \<Longrightarrow>
     p \<in> set kept \<or> (p \<in> set ps \<and> p \<noteq> ''.'' \<and> p \<noteq> ''..'')"
proof (induction ps arbitrary: up kept)
  case Nil
  then show ?case by simp
next
  case (Cons q ps)
  have "p \<in> set (fst (dropUps ps up kept)) \<or> p \<in> set (fst (dropUps ps (Suc up) kept))
      \<or> p \<in> set (fst (dropUps ps (up - 1) kept)) \<or> p \<in> set (fst (dropUps ps up (q # kept)))
           \<and> q \<noteq> ''.'' \<and> q \<noteq> ''..''"
    using Cons.prems by (simp split: if_splits)
  then show ?case
    using Cons.IH [of up kept] Cons.IH [of "Suc up" kept] Cons.IH [of "up - 1" kept]
      Cons.IH [of up "q # kept"]
    by auto
qed


lemma dropUps_up:
  "fst (dropUps ps k []) =
     take (length (fst (dropUps ps 0 [])) - k) (fst (dropUps ps 0 []))"
proof (induction ps arbitrary: k)
  case Nil
  show ?case by simp
next
  case (Cons p ps)
  let ?K = "fst (dropUps ps 0 [])"
  show ?case
  proof (cases "p = ''.''")
    case True
    then show ?thesis using Cons.IH [of k] by simp
  next
    case dot: False
    show ?thesis
    proof (cases "p = ''..''")
      case True
      have "fst (dropUps (p # ps) k []) = take (length ?K - Suc k) ?K"
        using True Cons.IH [of "Suc k"] by simp
      moreover have "fst (dropUps (p # ps) 0 []) = take (length ?K - 1) ?K"
        using True Cons.IH [of "Suc 0"] by simp
      ultimately show ?thesis by (simp add: min_def)
    next
      case False
      have "dropUps (p # ps) 0 [] = dropUps ps 0 [p]"
        using dot False by simp
      then have zero: "fst (dropUps (p # ps) 0 []) = ?K @ [p]"
        using dropUps_kept [of ps 0 "[p]"] by simp
      show ?thesis
      proof (cases k)
        case 0
        then show ?thesis by simp
      next
        case (Suc j)
        have "dropUps (p # ps) k [] = dropUps ps j []"
          using dot False Suc by simp
        then have "fst (dropUps (p # ps) k []) = take (length ?K - j) ?K"
          using Cons.IH [of j] by simp
        with zero Suc show ?thesis by simp
      qed
    qed
  qed
qed

lemma normalizeArray_False: "normalizeArray parts False = fst (dropUps (rev parts) 0 [])"
  by (simp add: normalizeArray_def split: prod.splits)

lemma normalizeArray_parts:
  "p \<in> set (normalizeArray parts False) \<Longrightarrow> p \<in> set parts \<and> p \<noteq> ''.'' \<and> p \<noteq> ''..''"
  using dropUps_set [of p "rev parts" 0 "[]"]
  by (simp add: normalizeArray_False)

lemma normalizeArray_clean:
  "\<forall>p \<in> set xs. p \<noteq> ''.'' \<and> p \<noteq> ''..'' \<Longrightarrow> normalizeArray xs False = xs"
  using dropUps_clean [of "rev xs" "[]"] by (simp add: normalizeArray_False)

lemma normalizeArray_up:
  assumes "\<forall>p \<in> set ts. p \<noteq> ''.'' \<and> p \<noteq> ''..''"
  shows "normalizeArray (as @ replicate k ''..'' @ ts) False =
           take (length (normalizeArray as False) - k) (normalizeArray as False) @ ts"
proof -
  have "dropUps (rev ts) 0 [] = (ts, 0)"
    using assms dropUps_clean [of "rev ts" "[]"] by simp
  then have "dropUps (rev ts @ replicate k ''..'' @ rev as) 0 [] = dropUps (rev as) k ts"
    by (simp add: dropUps_append dropUps_replicate)
  also have "\<dots> = (fst (dropUps (rev as) k []) @ ts, snd (dropUps (rev as) k []))"
    by (rule dropUps_kept)
  finally have "normalizeArray (as @ replicate k ''..'' @ ts) False = fst (dropUps (rev as) k []) @ ts"
    by (simp add: normalizeArray_False)
  then show ?thesis
    by (simp only: normalizeArray_False dropUps_up [of "rev as" k])
qed

lemma resolveLoop_acc:
  "resolveLoop ps acc = (fst (resolveLoop ps []) @ acc, snd (resolveLoop ps []))"
proof (induction ps arbitrary: acc)
  case Nil
  show ?case by simp
next
  case (Cons p ps)
  show ?case
    using Cons.IH [of acc] Cons.IH [of "p @ sep # acc"] Cons.IH [of "p @ [sep]"]
    by simp
qed

lemma resolveLoop_last:
  "fst (resolveLoop ps []) = [] \<or> last (fst (resolveLoop ps [])) = sep"
proof (induction ps)
  case Nil
  show ?case by simp
next
  case (Cons p ps)
  have "resolveLoop ps (p @ [sep]) = (fst (resolveLoop ps []) @ p @ [sep], snd (resolveLoop ps []))"
    by (rule resolveLoop_acc)
  with Cons show ?case by simp
qed

lemma resolveLoop_absolute:
  "isAbsolute wd \<Longrightarrow> snd (resolveLoop (ps @ [wd]) acc) = True"
proof (induction ps arbitrary: acc)
  case Nil
  then show ?case by (auto simp: isAbsolute_def)
next
  case (Cons p ps)
  then show ?case by simp
qed

text \<open>The segments a resolution works on, before \<open>.\<close> and \<open>..\<close> are resolved.\<close>

lemma path_resolve_absolute:
  assumes "isAbsolute wd"
  shows "path_resolve wd args =
           sep # joinSep (normalizeArray (segments (fst (resolveLoop (rev args @ [wd]) []))) False)"
proof -
  obtain rp ab where r: "resolveLoop (rev args @ [wd]) [] = (rp, ab)"
    by (cases "resolveLoop (rev args @ [wd]) []")
  have "ab = True"
    using resolveLoop_absolute [OF assms, of "rev args" "[]"] r by simp
  with r show ?thesis by (simp add: path_resolve_def)
qed

lemma resolved_parts:
  assumes "p \<in> set (normalizeArray (segments s) False)"
  shows "p \<noteq> [] \<and> sep \<notin> set p \<and> p \<noteq> ''.'' \<and> p \<noteq> ''..''"
  using normalizeArray_parts [OF assms] segments_parts [of p s] by simp

lemma segments_resolved:
  assumes "\<forall>p \<in> set ps. p \<noteq> [] \<and> sep \<notin> set p"
  shows "segments (sep # joinSep ps) = ps"
  using assms by (simp add: segments_sep_Cons segments_joinSep)

lemma path_resolve_resolved:
  assumes "isAbsolute wd"
    and "\<forall>p \<in> set ps. p \<noteq> [] \<and> sep \<notin> set p \<and> p \<noteq> ''.'' \<and> p \<noteq> ''..''"
  shows "path_resolve wd [sep # joinSep ps] = sep # joinSep ps"
proof -
  have "resolveLoop (rev [sep # joinSep ps] @ [wd]) [] = ((sep # joinSep ps) @ [sep], True)"
    by (simp add: isAbsolute_def)
  moreover have "segments ((sep # joinSep ps) @ [sep]) = ps"
    using assms(2) by (simp only: segments_snoc_sep) (simp add: segments_resolved)
  moreover have "normalizeArray ps False = ps"
    using assms(2) by (simp add: normalizeArray_clean)
  ultimately show ?thesis
    by (simp add: path_resolve_absolute [OF assms(1)])
qed

lemma samePartsLength_le: "samePartsLength xs ys \<le> length xs \<and> samePartsLength xs ys \<le> length ys"
  by (induction xs ys rule: samePartsLength.induct) auto

lemma samePartsLength_take:
  "take (samePartsLength xs ys) xs = take (samePartsLength xs ys) ys"
  by (induction xs ys rule: samePartsLength.induct) auto


lemma resolve_relative_resolved:
  assumes wd: "isAbsolute wd"
    and ts: "\<forall>p \<in> set ts. p \<noteq> [] \<and> sep \<notin> set p \<and> p \<noteq> ''.'' \<and> p \<noteq> ''..''"
  shows "path_resolve wd [d, path_relative wd d (sep # joinSep ts)] = sep # joinSep ts"
proof -
  let ?as = "segments (fst (resolveLoop [d, wd] []))"
  let ?fs = "normalizeArray ?as False"
  let ?n = "samePartsLength ?fs ts"
  let ?out = "replicate (length ?fs - ?n) ''..'' @ drop ?n ts"
  let ?rel = "joinSep ?out"
  have fromR: "path_resolve wd [d] = sep # joinSep ?fs"
    using path_resolve_absolute [OF wd, of "[d]"] by simp
  have fs: "\<forall>p \<in> set ?fs. p \<noteq> [] \<and> sep \<notin> set p"
    using resolved_parts by blast
  have ts': "\<forall>p \<in> set ts. p \<noteq> [] \<and> sep \<notin> set p"
    using ts by blast
  have rel: "path_relative wd d (sep # joinSep ts) = ?rel"
    by (simp only: path_relative_def fromR path_resolve_resolved [OF wd ts]
        segments_resolved [OF fs] segments_resolved [OF ts'] Let_def)
  have out: "\<forall>p \<in> set ?out. p \<noteq> [] \<and> sep \<notin> set p"
    using ts' by (auto simp: sep_def dest: in_set_dropD)
  have n: "?n \<le> length ?fs" "?n \<le> length ts" "take ?n ?fs = take ?n ts"
    using samePartsLength_le [of ?fs ts] samePartsLength_take [of ?fs ts] by simp_all
  show ?thesis
  proof (cases "?rel = []")
    case True
    then have "?out = []"
      using out joinSep_eq_Nil [of ?out] by blast
    then have "length ?fs = ?n" "length ts = ?n"
      using n by simp_all
    then have "?fs = ts"
      using n(3) by (metis order_refl take_all)
    moreover have "path_resolve wd [d, []] = path_resolve wd [d]"
      by (simp add: path_resolve_def)
    ultimately show ?thesis
      using True by (simp only: rel fromR)
  next
    case False
    then have "?out \<noteq> []" by auto
    then have notabs: "\<not> isAbsolute ?rel"
      using out joinSep_hd [of ?out] by blast
    have "resolveLoop (rev [d, ?rel] @ [wd]) [] = resolveLoop [d, wd] (?rel @ [sep])"
      using False notabs by simp
    also have "\<dots> = (fst (resolveLoop [d, wd] []) @ ?rel @ [sep], snd (resolveLoop [d, wd] []))"
      by (rule resolveLoop_acc)
    finally have "segments (fst (resolveLoop (rev [d, ?rel] @ [wd]) []))
        = segments (fst (resolveLoop [d, wd] []) @ ?rel @ [sep])"
      by simp
    also have "\<dots> = ?as @ segments (?rel @ [sep])"
      using resolveLoop_last [of "[d, wd]"] by (rule segments_append)
    also have "\<dots> = ?as @ ?out"
      using out by (simp only: segments_snoc_sep) (simp only: segments_joinSep)
    finally have "path_resolve wd [d, ?rel] = sep # joinSep (normalizeArray (?as @ ?out) False)"
      by (simp only: path_resolve_absolute [OF wd])
    moreover have "normalizeArray (?as @ ?out) False
        = take (length ?fs - (length ?fs - ?n)) ?fs @ drop ?n ts"
    proof (rule normalizeArray_up)
      show "\<forall>p \<in> set (drop ?n ts). p \<noteq> ''.'' \<and> p \<noteq> ''..''"
        using ts by (auto dest: in_set_dropD)
    qed
    moreover have "take (length ?fs - (length ?fs - ?n)) ?fs @ drop ?n ts = ts"
    proof -
      have "length ?fs - (length ?fs - ?n) = ?n" using n(1) by simp
      then show ?thesis using n(3) by simp
    qed
    ultimately show ?thesis by (simp only: rel)
  qed
qed

text \<open>The law of Node's documentation, for an absolute working directory.\<close>

lemma resolve_relative:
  assumes "isAbsolute wd"
  shows "path_resolve wd [d, path_relative wd d (path_resolve wd args)]
           = path_resolve wd args"
proof -
  let ?ts = "normalizeArray (segments (fst (resolveLoop (rev args @ [wd]) []))) False"
  have "path_resolve wd args = sep # joinSep ?ts"
    by (rule path_resolve_absolute [OF assms])
  moreover have "\<forall>p \<in> set ?ts. p \<noteq> [] \<and> sep \<notin> set p \<and> p \<noteq> ''.'' \<and> p \<noteq> ''..''"
    using resolved_parts by blast
  ultimately show ?thesis
    using resolve_relative_resolved [OF assms, of ?ts d] by simp
qed

section \<open>Facts about the argument list\<close>

lemma foldl_push:
  "foldl (\<lambda>args f. push args [JStr (path f)]) args fs = args @ map (\<lambda>f. JStr (path f)) fs"
  by (induction fs arbitrary: args) (simp_all add: push_def)

lemma andThen_Inr [simp]: "andThen (Inr x) f = f x"
  by (simp add: andThen_def)

lemma andThen_Inl [simp]: "andThen (Inl e) f = Inl e"
  by (simp add: andThen_def)

lemma andThen_eq_Inr: "andThen r f = Inr y \<longleftrightarrow> (\<exists>x. r = Inr x \<and> f x = Inr y)"
  by (cases r) simp_all

lemma if_push: "(if b then push args xs else args) = args @ (if b then xs else [])"
  by (simp add: push_def)

lemma sum_push:
  "(if b then andThen r (\<lambda>m. Inr (push args (g m))) else Inr args)
     = andThen (if b then andThen r (\<lambda>m. Inr (g m)) else Inr []) (\<lambda>x. Inr (args @ x))"
  by (cases r) (simp_all add: push_def)

lemma dest_push:
  "(case whenSet td of
      Some tmp \<Rightarrow>
        (let a = push args [JStr ''--outDir'', JStr tmp]
         in if tb then andThen (resolveValue wd tmp v) (\<lambda>p. Inr (push a [JStr ''--out'', p]))
            else Inr a)
    | None \<Rightarrow> if tb then Inr (push args [JStr ''--out'', v]) else Inr args)
   = andThen
       (case whenSet td of
          Some tmp \<Rightarrow>
            if tb then andThen (resolveValue wd tmp v)
                         (\<lambda>p. Inr [JStr ''--outDir'', JStr tmp, JStr ''--out'', p])
            else Inr [JStr ''--outDir'', JStr tmp]
        | None \<Rightarrow> if tb then Inr [JStr ''--out'', v] else Inr [])
       (\<lambda>x. Inr (args @ x))"
proof (cases "whenSet td")
  case None
  then show ?thesis by (simp add: push_def)
next
  case (Some tmp)
  then show ?thesis by (cases "resolveValue wd tmp v") (simp_all add: push_def)
qed

lemma keeper_push:
  "(case k of Some keeper \<Rightarrow> push args [JStr keeper] | None \<Rightarrow> args)
     = args @ (case k of Some keeper \<Rightarrow> [JStr keeper] | None \<Rightarrow> [])"
  by (cases k) (simp_all add: push_def)

lemma andThen_assoc: "andThen (andThen r f) g = andThen r (\<lambda>x. andThen (f x) g)"
  by (cases r) simp_all

lemma buildTscArguments_pieces:
  "buildTscArguments wd c version =
     andThen (moduleArgs c) (\<lambda>m.
     andThen (targetArgs c) (\<lambda>t.
     andThen (destinationArgs wd c) (\<lambda>d.
       Inr (m @ t @ switchArgs c version @ d @ fileArgs c))))"
  apply (simp only: buildTscArguments_def)
  apply (simp only: dest_push)
  apply (simp only: if_push sum_push keeper_push foldl_push)
  apply (simp only: Let_def)
  apply (simp only: andThen_assoc andThen_Inr)
  apply (simp only: moduleArgs_def targetArgs_def destinationArgs_def switchArgs_def fileArgs_def versionGate_def Let_def append_Nil append_assoc)
  done

section \<open>The source-map transform\<close>

lemma rewriteSource_roundtrip:
  assumes "isAbsolute wd"
  shows "path_resolve wd [path_dirname newPath, rewriteSource wd orig newPath s]
           = path_resolve wd [path_dirname orig, s]"
  using resolve_relative [OF assms, of "path_dirname newPath" "[path_dirname orig, s]"]
  by (simp add: rewriteSource_def)

text \<open>
  Claim C7. A \<^verbatim>\<open>.js.map\<close> file that the source-map transform rewrites keeps, entry by
  entry, the files its \<^verbatim>\<open>sources\<close> name: the new entry, resolved against the directory
  of the file's new path, is the absolute path that the old entry gave when resolved
  against the directory of the file's original path. The transform is in the pipeline
  exactly when \<^verbatim>\<open>sourceMap\<close> is set and \<^verbatim>\<open>sourceRoot\<close> is not. Paths are POSIX paths and
  the working directory is absolute, as \<^verbatim>\<open>process.cwd()\<close> is.
\<close>

theorem fixSourcemapPath_roundtrip:
  assumes "isAbsolute wd"
    and "fixSourcemapPath wd parse stringify file = Pushed file'"
    and "contents file = Buffer text"
    and "occursIn ''.js.map'' (path file)"
    and "parse text = Inr m"
    and "sources m = Some srcs"
    and "srcs \<noteq> []"
  shows "(\<exists>orig srcs'.
            originalPath file = Some orig
          \<and> file' = file\<lparr> contents := Buffer (stringify (m\<lparr> sources := Some srcs' \<rparr>)) \<rparr>
          \<and> length srcs' = length srcs
          \<and> (\<forall>i < length srcs.
                path_resolve wd [path_dirname (path file'), srcs' ! i]
                  = path_resolve wd [path_dirname orig, srcs ! i]))
       \<and> (FixSourcemapPath \<in> set (outputTransforms c)
            \<longleftrightarrow> truthy (opt (options c) ''sourceMap'') \<and> \<not> truthy (opt (options c) ''sourceRoot''))"
proof
  obtain orig where orig: "originalPath file = Some orig"
    using assms(2-7) by (cases "originalPath file") (simp_all add: fixSourcemapPath_def)
  let ?srcs' = "map (rewriteSource wd orig (path file)) srcs"
  have file': "file' = file\<lparr> contents := Buffer (stringify (m\<lparr> sources := Some ?srcs' \<rparr>)) \<rparr>"
    using assms(2-7) orig by (simp add: fixSourcemapPath_def)
  have "\<forall>i < length srcs.
          path_resolve wd [path_dirname (path file'), ?srcs' ! i]
            = path_resolve wd [path_dirname orig, srcs ! i]"
    using rewriteSource_roundtrip [OF assms(1)] by (simp add: file')
  with orig file' show "\<exists>orig srcs'.
            originalPath file = Some orig
          \<and> file' = file\<lparr> contents := Buffer (stringify (m\<lparr> sources := Some srcs' \<rparr>)) \<rparr>
          \<and> length srcs' = length srcs
          \<and> (\<forall>i < length srcs.
                path_resolve wd [path_dirname (path file'), srcs' ! i]
                  = path_resolve wd [path_dirname orig, srcs ! i])"
    by (metis length_map)
next
  show "FixSourcemapPath \<in> set (outputTransforms c)
            \<longleftrightarrow> truthy (opt (options c) ''sourceMap'') \<and> \<not> truthy (opt (options c) ''sourceRoot'')"
    by (simp add: outputTransforms_def)
qed

theorem fixSourcemapPath_roundtrip_witness:
  "isAbsolute ''/w''
   \<and> fixSourcemapPath ''/w''
        (\<lambda>t. Inr \<lparr> sources = Some [''../../src/a/b.ts''], others = t \<rparr>)
        (\<lambda>m. case sources m of None \<Rightarrow> [] | Some ss \<Rightarrow> concat ss)
        \<lparr> cwd = ''/w/build/js'', base = ''/w/build/js'', path = ''/w/build/js/a/b.js.map'',
          originalPath = Some ''/w/tmp-1/a/b.js.map'', contents = Buffer ''{}'' \<rparr>
      = Pushed \<lparr> cwd = ''/w/build/js'', base = ''/w/build/js'', path = ''/w/build/js/a/b.js.map'',
          originalPath = Some ''/w/tmp-1/a/b.js.map'', contents = Buffer ''../../../src/a/b.ts'' \<rparr>
   \<and> path_resolve ''/w'' [path_dirname ''/w/build/js/a/b.js.map'', ''../../../src/a/b.ts'']
      = path_resolve ''/w'' [path_dirname ''/w/tmp-1/a/b.js.map'', ''../../src/a/b.ts'']"
proof -
  let ?parse = "\<lambda>t. Inr \<lparr> sources = Some [''../../src/a/b.ts''], others = t \<rparr>
                  :: js_error + string sourceMap"
  let ?stringify = "\<lambda>m :: string sourceMap. case sources m of None \<Rightarrow> [] | Some ss \<Rightarrow> concat ss"
  let ?file = "\<lparr> cwd = ''/w/build/js'', base = ''/w/build/js'', path = ''/w/build/js/a/b.js.map'',
          originalPath = Some ''/w/tmp-1/a/b.js.map'', contents = Buffer ''{}'' \<rparr>"
  let ?file' = "\<lparr> cwd = ''/w/build/js'', base = ''/w/build/js'', path = ''/w/build/js/a/b.js.map'',
          originalPath = Some ''/w/tmp-1/a/b.js.map'', contents = Buffer ''../../../src/a/b.ts'' \<rparr>"
  have wd: "isAbsolute ''/w''"
    by (simp add: isAbsolute_def sep_def)
  have rw: "rewriteSource ''/w'' ''/w/tmp-1/a/b.js.map'' ''/w/build/js/a/b.js.map''
              ''../../src/a/b.ts'' = ''../../../src/a/b.ts''"
    by code_simp
  have occ: "occursIn ''.js.map'' (path ?file)"
    by code_simp
  have pushed: "fixSourcemapPath ''/w'' ?parse ?stringify ?file = Pushed ?file'"
    using occ by (simp add: fixSourcemapPath_def rw)
  have "\<exists>orig srcs'.
            originalPath ?file = Some orig
          \<and> ?file' = ?file\<lparr> contents := Buffer (?stringify
                (\<lparr> sources = Some [''../../src/a/b.ts''], others = ''{}'' \<rparr>\<lparr> sources := Some srcs' \<rparr>)) \<rparr>
          \<and> length srcs' = length [''../../src/a/b.ts'']
          \<and> (\<forall>i < length [''../../src/a/b.ts''].
                path_resolve ''/w'' [path_dirname (path ?file'), srcs' ! i]
                  = path_resolve ''/w'' [path_dirname orig, [''../../src/a/b.ts''] ! i])"
    using fixSourcemapPath_roundtrip [OF wd pushed _ occ, of "''{}''"
        "\<lparr> sources = Some [''../../src/a/b.ts''], others = ''{}'' \<rparr>" "[''../../src/a/b.ts'']"]
    by simp
  then obtain srcs' where s: "''../../../src/a/b.ts'' = concat srcs'" "length srcs' = 1"
      "path_resolve ''/w'' [path_dirname ''/w/build/js/a/b.js.map'', srcs' ! 0]
         = path_resolve ''/w'' [path_dirname ''/w/tmp-1/a/b.js.map'', ''../../src/a/b.ts'']"
    by auto
  from s(2) obtain x where "srcs' = [x]"
    by (cases srcs') auto
  with s(1,3) have "path_resolve ''/w'' [path_dirname ''/w/build/js/a/b.js.map'', ''../../../src/a/b.ts'']
      = path_resolve ''/w'' [path_dirname ''/w/tmp-1/a/b.js.map'', ''../../src/a/b.ts'']"
    by simp
  with wd pushed show ?thesis by blast
qed

section \<open>The arguments of the compiler\<close>

lemma moduleArgs_Inr:
  assumes "moduleArgs c = Inr m"
  shows "m = (case opt (options c) ''module'' of
                JStr k \<Rightarrow> if k = [] then [] else [JStr ''--module'', JStr (map lowerChar k)]
              | _ \<Rightarrow> [])"
  using assms by (cases "opt (options c) ''module''") (auto simp: moduleArgs_def split: if_splits)

lemma targetArgs_Inr:
  assumes "targetArgs c = Inr t"
  shows "t = (case opt (options c) ''target'' of
                JStr k \<Rightarrow> if k = [] then [] else [JStr ''--target'', JStr (map upperChar k)]
              | _ \<Rightarrow> [])"
  using assms by (cases "opt (options c) ''target''") (auto simp: targetArgs_def split: if_splits)

lemma destinationArgs_Inr:
  assumes "destinationArgs wd c = Inr d"
  shows "d = (case whenSet (tempDestination c) of
                Some tmp \<Rightarrow>
                  [JStr ''--outDir'', JStr tmp]
                  @ (case opt (options c) ''out'' of
                       JStr f \<Rightarrow> if f = [] then [] else [JStr ''--out'', JStr (path_resolve wd [tmp, f])]
                     | _ \<Rightarrow> [])
              | None \<Rightarrow>
                  if truthy (opt (options c) ''out'') then [JStr ''--out'', opt (options c) ''out'']
                  else [])"
proof (cases "whenSet (tempDestination c)")
  case None
  with assms show ?thesis by (auto simp: destinationArgs_def split: if_splits)
next
  case (Some tmp)
  with assms show ?thesis
    by (cases "opt (options c) ''out''") (auto simp: destinationArgs_def split: if_splits)
qed

lemma versionGate_iff: "versionGate v \<longleftrightarrow> v = JUndefined \<or> v = JStr ''1.5''"
  by (cases v) (simp_all add: versionGate_def)

lemma buildTscArguments_Inr:
  "buildTscArguments wd c version = Inr args \<longleftrightarrow>
     (\<exists>m t d. moduleArgs c = Inr m \<and> targetArgs c = Inr t \<and> destinationArgs wd c = Inr d
        \<and> args = m @ t @ switchArgs c version @ d @ fileArgs c)"
  by (auto simp: buildTscArguments_pieces andThen_eq_Inr)

text \<open>
  Claim C2. Whenever \<^verbatim>\<open>buildTscArguments\<close> returns a list, the list is, in this order:
  for each option its flag (with its value, for the valued ones) if the option is set and
  nothing at all if it is \<^verbatim>\<open>null\<close>, \<^verbatim>\<open>false\<close>, empty or absent; then, with a temporary
  destination, \<^verbatim>\<open>--outDir\<close> and that directory, followed by \<^verbatim>\<open>--out\<close> and the \<^verbatim>\<open>out\<close>
  option resolved against the directory if \<^verbatim>\<open>out\<close> is set, and without a temporary
  destination \<^verbatim>\<open>--out\<close> and the option as it is; then the paths of the source files in
  their order; then the placeholder file if there is one. (The method raises, and returns
  no list, when \<^verbatim>\<open>module\<close> or \<^verbatim>\<open>target\<close> is set to a value that is no string, or
  \<^verbatim>\<open>out\<close> is such a value while a temporary destination is active.)
\<close>

theorem buildTscArguments_arguments:
  assumes "buildTscArguments wd c version = Inr args"
  shows "args =
      (case opt (options c) ''module'' of
         JStr k \<Rightarrow> if k = [] then [] else [JStr ''--module'', JStr (map lowerChar k)]
       | _ \<Rightarrow> [])
    @ (case opt (options c) ''target'' of
         JStr k \<Rightarrow> if k = [] then [] else [JStr ''--target'', JStr (map upperChar k)]
       | _ \<Rightarrow> [])
    @ (if truthy (opt (options c) ''mapRoot'')
       then [JStr ''--mapRoot'', opt (options c) ''mapRoot''] else [])
    @ (if truthy (opt (options c) ''sourceRoot'')
       then [JStr ''--sourceRoot'', opt (options c) ''sourceRoot''] else [])
    @ (if truthy (opt (options c) ''allowbool'') then [JStr ''--allowbool''] else [])
    @ (if truthy (opt (options c) ''allowimportmodule'') then [JStr ''--allowimportmodule''] else [])
    @ (if truthy (opt (options c) ''suppressImplicitAnyIndexErrors'')
          \<and> (version = JUndefined \<or> version = JStr ''1.5'')
       then [JStr ''--suppressImplicitAnyIndexErrors''] else [])
    @ (if truthy (opt (options c) ''declaration'') then [JStr ''--declaration''] else [])
    @ (if truthy (opt (options c) ''noImplicitAny'') then [JStr ''--noImplicitAny''] else [])
    @ (if truthy (opt (options c) ''noResolve'') then [JStr ''--noResolve''] else [])
    @ (if truthy (opt (options c) ''removeComments'') then [JStr ''--removeComments''] else [])
    @ (if truthy (opt (options c) ''sourceMap'') then [JStr ''--sourcemap''] else [])
    @ (if truthy (opt (options c) ''noLib'') then [JStr ''--noLib''] else [])
    @ (if truthy (opt (options c) ''emitDecoratorMetadata'')
       then [JStr ''--emitDecoratorMetadata''] else [])
    @ (case whenSet (tempDestination c) of
         Some tmp \<Rightarrow>
           [JStr ''--outDir'', JStr tmp]
           @ (case opt (options c) ''out'' of
                JStr f \<Rightarrow> if f = [] then [] else [JStr ''--out'', JStr (path_resolve wd [tmp, f])]
              | _ \<Rightarrow> [])
       | None \<Rightarrow>
           if truthy (opt (options c) ''out'') then [JStr ''--out'', opt (options c) ''out'']
           else [])
    @ map (\<lambda>f. JStr (path f)) (sourceFiles c)
    @ (case whenSet (treeKeeperFile c) of Some keeper \<Rightarrow> [JStr keeper] | None \<Rightarrow> [])"
proof -
  from assms obtain m t d where p: "moduleArgs c = Inr m" "targetArgs c = Inr t"
      "destinationArgs wd c = Inr d" "args = m @ t @ switchArgs c version @ d @ fileArgs c"
    unfolding buildTscArguments_Inr by blast
  show ?thesis
    unfolding p(4) moduleArgs_Inr [OF p(1)] targetArgs_Inr [OF p(2)] destinationArgs_Inr [OF p(3)]
    by (simp only: switchArgs_def fileArgs_def Let_def versionGate_iff append_assoc)
qed

theorem buildTscArguments_arguments_witness:
  "\<exists>args.
     buildTscArguments ''/w''
       \<lparr> sourceFiles =
           [\<lparr> cwd = ''/w'', base = ''/w/src'', path = ''/w/src/a.ts'', originalPath = None,
              contents = NoContents \<rparr>,
            \<lparr> cwd = ''/w'', base = ''/w/src'', path = ''/w/src/lib/b.ts'', originalPath = None,
              contents = NoContents \<rparr>],
         options = [''module'' \<mapsto> JStr ''AMD'', ''target'' \<mapsto> JStr ''es5'',
                    ''mapRoot'' \<mapsto> JNull, ''declaration'' \<mapsto> JBool True,
                    ''noLib'' \<mapsto> JBool False, ''out'' \<mapsto> JStr ''all.js''],
         tscOptions = Map.empty,
         tempDestination = Some ''/w/gulp-tsc-tmp-1'',
         tscArgumentsFile = None,
         treeKeeperFile = Some ''/w/src/.gulp-tsc-tmp-2.ts'' \<rparr>
       JUndefined = Inr args
   \<and> args = [JStr ''--module'', JStr ''amd'', JStr ''--target'', JStr ''ES5'',
             JStr ''--declaration'',
             JStr ''--outDir'', JStr ''/w/gulp-tsc-tmp-1'',
             JStr ''--out'', JStr ''/w/gulp-tsc-tmp-1/all.js'',
             JStr ''/w/src/a.ts'', JStr ''/w/src/lib/b.ts'', JStr ''/w/src/.gulp-tsc-tmp-2.ts'']"
proof -
  let ?c = "\<lparr> sourceFiles =
           [\<lparr> cwd = ''/w'', base = ''/w/src'', path = ''/w/src/a.ts'', originalPath = None,
              contents = NoContents \<rparr>,
            \<lparr> cwd = ''/w'', base = ''/w/src'', path = ''/w/src/lib/b.ts'', originalPath = None,
              contents = NoContents \<rparr>],
         options = [''module'' \<mapsto> JStr ''AMD'', ''target'' \<mapsto> JStr ''es5'',
                    ''mapRoot'' \<mapsto> JNull, ''declaration'' \<mapsto> JBool True,
                    ''noLib'' \<mapsto> JBool False, ''out'' \<mapsto> JStr ''all.js''],
         tscOptions = Map.empty,
         tempDestination = Some ''/w/gulp-tsc-tmp-1'',
         tscArgumentsFile = None,
         treeKeeperFile = Some ''/w/src/.gulp-tsc-tmp-2.ts'' \<rparr>"
  have lower: "map lowerChar ''AMD'' = ''amd''" by code_simp
  have upper: "map upperChar ''es5'' = ''ES5''" by code_simp
  have res: "path_resolve ''/w'' [''/w/gulp-tsc-tmp-1'', ''all.js''] = ''/w/gulp-tsc-tmp-1/all.js''"
    by code_simp
  have "\<exists>args. buildTscArguments ''/w'' ?c JUndefined = Inr args"
    by (simp add: buildTscArguments_Inr moduleArgs_def targetArgs_def destinationArgs_def opt_def)
  then obtain args where args: "buildTscArguments ''/w'' ?c JUndefined = Inr args" ..
  have "args = [JStr ''--module'', JStr ''amd'', JStr ''--target'', JStr ''ES5'',
             JStr ''--declaration'',
             JStr ''--outDir'', JStr ''/w/gulp-tsc-tmp-1'',
             JStr ''--out'', JStr ''/w/gulp-tsc-tmp-1/all.js'',
             JStr ''/w/src/a.ts'', JStr ''/w/src/lib/b.ts'', JStr ''/w/src/.gulp-tsc-tmp-2.ts'']"
    using buildTscArguments_arguments [OF args]
    by (simp add: opt_def lower [simplified] upper [simplified] res)
  with args show ?thesis by blast
qed


text \<open>
  Claim C3. With \<^verbatim>\<open>suppressImplicitAnyIndexErrors\<close> set, the list is the list that the same
  configuration gives with the option switched off, with the flag
  \<^verbatim>\<open>--suppressImplicitAnyIndexErrors\<close> put in when the version is \<^verbatim>\<open>undefined\<close> or the
  string \<^verbatim>\<open>1.5\<close>, and nothing put in for any other version: any other string, and the
  values that are no strings (numbers are the integers here).
\<close>

theorem suppress_flag_gated:
  assumes "truthy (opt (options c) ''suppressImplicitAnyIndexErrors'')"
    and "buildTscArguments wd c version = Inr args"
  shows "\<exists>before after.
           buildTscArguments wd
             (c\<lparr> options := (options c)(''suppressImplicitAnyIndexErrors'' \<mapsto> JBool False) \<rparr>) version
             = Inr (before @ after)
         \<and> args = before
                  @ (if version = JUndefined \<or> version = JStr ''1.5''
                     then [JStr ''--suppressImplicitAnyIndexErrors''] else [])
                  @ after"
proof -
  let ?off = "c\<lparr> options := (options c)(''suppressImplicitAnyIndexErrors'' \<mapsto> JBool False) \<rparr>"
  let ?ov = "opt (options c)"
  from assms(2) obtain m t d where p: "moduleArgs c = Inr m" "targetArgs c = Inr t"
      "destinationArgs wd c = Inr d" "args = m @ t @ switchArgs c version @ d @ fileArgs c"
    unfolding buildTscArguments_Inr by blast
  let ?before = "m @ t
      @ (if truthy (?ov ''mapRoot'') then [JStr ''--mapRoot'', ?ov ''mapRoot''] else [])
      @ (if truthy (?ov ''sourceRoot'') then [JStr ''--sourceRoot'', ?ov ''sourceRoot''] else [])
      @ (if truthy (?ov ''allowbool'') then [JStr ''--allowbool''] else [])
      @ (if truthy (?ov ''allowimportmodule'') then [JStr ''--allowimportmodule''] else [])"
  let ?after = "(if truthy (?ov ''declaration'') then [JStr ''--declaration''] else [])
      @ (if truthy (?ov ''noImplicitAny'') then [JStr ''--noImplicitAny''] else [])
      @ (if truthy (?ov ''noResolve'') then [JStr ''--noResolve''] else [])
      @ (if truthy (?ov ''removeComments'') then [JStr ''--removeComments''] else [])
      @ (if truthy (?ov ''sourceMap'') then [JStr ''--sourcemap''] else [])
      @ (if truthy (?ov ''noLib'') then [JStr ''--noLib''] else [])
      @ (if truthy (?ov ''emitDecoratorMetadata'') then [JStr ''--emitDecoratorMetadata''] else [])
      @ d @ fileArgs c"
  have other: "\<And>k. k \<noteq> ''suppressImplicitAnyIndexErrors'' \<Longrightarrow>
      opt ((options c)(''suppressImplicitAnyIndexErrors'' \<mapsto> JBool False)) k = ?ov k"
    by (simp add: opt_def)
  have "moduleArgs ?off = moduleArgs c" "targetArgs ?off = targetArgs c"
    "destinationArgs wd ?off = destinationArgs wd c" "fileArgs ?off = fileArgs c"
    by (simp_all add: moduleArgs_def targetArgs_def destinationArgs_def fileArgs_def other
        split: option.splits)
  then have "moduleArgs ?off = Inr m" "targetArgs ?off = Inr t" "destinationArgs wd ?off = Inr d"
    "fileArgs ?off = fileArgs c"
    using p(1-3) by simp_all
  moreover have "switchArgs ?off version = 
      (if truthy (?ov ''mapRoot'') then [JStr ''--mapRoot'', ?ov ''mapRoot''] else [])
      @ (if truthy (?ov ''sourceRoot'') then [JStr ''--sourceRoot'', ?ov ''sourceRoot''] else [])
      @ (if truthy (?ov ''allowbool'') then [JStr ''--allowbool''] else [])
      @ (if truthy (?ov ''allowimportmodule'') then [JStr ''--allowimportmodule''] else [])
      @ (if truthy (?ov ''declaration'') then [JStr ''--declaration''] else [])
      @ (if truthy (?ov ''noImplicitAny'') then [JStr ''--noImplicitAny''] else [])
      @ (if truthy (?ov ''noResolve'') then [JStr ''--noResolve''] else [])
      @ (if truthy (?ov ''removeComments'') then [JStr ''--removeComments''] else [])
      @ (if truthy (?ov ''sourceMap'') then [JStr ''--sourcemap''] else [])
      @ (if truthy (?ov ''noLib'') then [JStr ''--noLib''] else [])
      @ (if truthy (?ov ''emitDecoratorMetadata'') then [JStr ''--emitDecoratorMetadata''] else [])"
    unfolding switchArgs_def Let_def by (simp add: other) (simp add: opt_def)
  ultimately have "buildTscArguments wd ?off version = Inr (?before @ ?after)"
    unfolding buildTscArguments_Inr by simp
  moreover have "args = ?before
                  @ (if version = JUndefined \<or> version = JStr ''1.5''
                     then [JStr ''--suppressImplicitAnyIndexErrors''] else [])
                  @ ?after"
    unfolding p(4) using assms(1)
    by (simp only: switchArgs_def Let_def versionGate_iff append_assoc simp_thms if_True if_False)
  ultimately show ?thesis by blast
qed

theorem suppress_flag_gated_witness:
  "buildTscArguments ''/w''
     \<lparr> sourceFiles = [], options = [''suppressImplicitAnyIndexErrors'' \<mapsto> JBool True,
          ''noLib'' \<mapsto> JBool True],
       tscOptions = Map.empty, tempDestination = None, tscArgumentsFile = None,
       treeKeeperFile = None \<rparr> (JStr ''1.5'')
     = Inr [JStr ''--suppressImplicitAnyIndexErrors'', JStr ''--noLib'']
   \<and> buildTscArguments ''/w''
     \<lparr> sourceFiles = [], options = [''suppressImplicitAnyIndexErrors'' \<mapsto> JBool True,
          ''noLib'' \<mapsto> JBool True],
       tscOptions = Map.empty, tempDestination = None, tscArgumentsFile = None,
       treeKeeperFile = None \<rparr> (JStr ''1.5.3'')
     = Inr [JStr ''--noLib'']
   \<and> buildTscArguments ''/w''
     \<lparr> sourceFiles = [], options = [''noLib'' \<mapsto> JBool True,
          ''suppressImplicitAnyIndexErrors'' \<mapsto> JBool False],
       tscOptions = Map.empty, tempDestination = None, tscArgumentsFile = None,
       treeKeeperFile = None \<rparr> (JStr ''1.5'')
     = Inr [JStr ''--noLib'']"
proof -
  let ?c = "\<lparr> sourceFiles = [], options = [''suppressImplicitAnyIndexErrors'' \<mapsto> JBool True,
          ''noLib'' \<mapsto> JBool True],
       tscOptions = Map.empty, tempDestination = None, tscArgumentsFile = None,
       treeKeeperFile = None \<rparr>"
  let ?off = "\<lparr> sourceFiles = [], options = [''noLib'' \<mapsto> JBool True,
          ''suppressImplicitAnyIndexErrors'' \<mapsto> JBool False],
       tscOptions = Map.empty, tempDestination = None, tscArgumentsFile = None,
       treeKeeperFile = None \<rparr>"
  have enabled: "truthy (opt (options ?c) ''suppressImplicitAnyIndexErrors'')"
    by (simp add: opt_def)
  have c0: "?c\<lparr> options := (options ?c)(''suppressImplicitAnyIndexErrors'' \<mapsto> JBool False) \<rparr> = ?off"
    by simp
  have a: "buildTscArguments ''/w'' ?c (JStr ''1.5'')
             = Inr [JStr ''--suppressImplicitAnyIndexErrors'', JStr ''--noLib'']"
    by (simp add: buildTscArguments_pieces moduleArgs_def targetArgs_def destinationArgs_def
        switchArgs_def fileArgs_def versionGate_def opt_def)
  have b: "buildTscArguments ''/w'' ?c (JStr ''1.5.3'') = Inr [JStr ''--noLib'']"
    by (simp add: buildTscArguments_pieces moduleArgs_def targetArgs_def destinationArgs_def
        switchArgs_def fileArgs_def versionGate_def opt_def)
  from suppress_flag_gated [OF enabled a] obtain before after where
    ba: "buildTscArguments ''/w'' ?off (JStr ''1.5'') = Inr (before @ after)"
    "[JStr ''--suppressImplicitAnyIndexErrors'', JStr ''--noLib'']
       = before @ [JStr ''--suppressImplicitAnyIndexErrors''] @ after"
    unfolding c0 by auto
  have "before = [] \<and> after = [JStr ''--noLib'']"
  proof (cases before)
    case Nil
    with ba(2) show ?thesis by simp
  next
    case (Cons x xs)
    with ba(2) have "[JStr ''--noLib''] = xs @ JStr ''--suppressImplicitAnyIndexErrors'' # after"
      by simp
    then have False by (cases xs) simp_all
    then show ?thesis ..
  qed
  with ba(1) have "buildTscArguments ''/w'' ?off (JStr ''1.5'') = Inr [JStr ''--noLib'']"
    by simp
  with a b show ?thesis by blast
qed

section \<open>The constructor\<close>

lemma defaultModule_cases:
  "(case opt os ''target'' of JStr t \<Rightarrow> if t = ''ES6'' then JNull else JStr ''commonjs''
    | _ \<Rightarrow> JStr ''commonjs'')
   = (if opt os ''target'' = JStr ''ES6'' then JNull else JStr ''commonjs'')"
  by (cases "opt os ''target''") simp_all

lemma Compiler_module:
  "opt (options (Compiler fs (Some os))) ''module'' =
     (case os ''module'' of
        Some v \<Rightarrow> v
      | None \<Rightarrow> if opt os ''target'' = JStr ''ES6'' then JNull else JStr ''commonjs'')"
  by (simp add: Compiler_def Let_def extend_obj_def defaultOptions_def opt_def map_add_def
      defaultModule_cases [unfolded opt_def] split: option.splits)

lemma Compiler_module_None:
  "opt (options (Compiler fs None)) ''module'' = JStr ''commonjs''"
  by (simp add: Compiler_def Let_def extend_obj_def defaultOptions_def opt_def)

lemma Compiler_target:
  "opt (options (Compiler fs (Some os))) ''target'' =
     (case os ''target'' of Some v \<Rightarrow> v | None \<Rightarrow> JStr ''ES3'')"
  by (simp add: Compiler_def Let_def extend_obj_def defaultOptions_def opt_def map_add_def
      split: option.splits)

lemma Compiler_out:
  "opt (options (Compiler fs (Some os))) ''out'' =
     (case os ''out'' of Some v \<Rightarrow> v | None \<Rightarrow> JNull)"
  by (simp add: Compiler_def Let_def extend_obj_def defaultOptions_def opt_def map_add_def
      split: option.splits)

lemma Compiler_sourceRoot:
  "opt (options (Compiler fs (Some os))) ''sourceRoot'' =
     (case os ''sourceRoot'' of Some v \<Rightarrow> v | None \<Rightarrow> JNull)"
  by (simp add: Compiler_def Let_def extend_obj_def defaultOptions_def opt_def map_add_def
      split: option.splits)

lemma Compiler_sourceMap:
  "opt (options (Compiler fs (Some os))) ''sourceMap'' =
     js_or (opt os ''sourceMap'') (opt os ''sourcemap'')"
  by (simp add: Compiler_def Let_def extend_obj_def defaultOptions_def opt_def map_add_def
      js_or_def split: option.splits)

lemma Compiler_sourcemap_removed:
  "options (Compiler fs opts) ''sourcemap'' = None"
  by (simp add: Compiler_def Let_def)

lemma buildTscArguments_module_first:
  assumes "buildTscArguments wd c version = Inr args"
    and "opt (options c) ''module'' = JStr m" and "m \<noteq> []"
  shows "\<exists>rest. args = JStr ''--module'' # JStr (map lowerChar m) # rest"
proof -
  from assms(1) obtain ms t d where p: "moduleArgs c = Inr ms"
      "args = ms @ t @ switchArgs c version @ d @ fileArgs c"
    unfolding buildTscArguments_Inr by blast
  from moduleArgs_Inr [OF p(1)] assms(2,3) have "ms = [JStr ''--module'', JStr (map lowerChar m)]"
    by simp
  with p(2) show ?thesis by simp
qed

lemma buildTscArguments_target_only:
  assumes "buildTscArguments wd c version = Inr args"
    and "\<not> truthy (opt (options c) ''module'')"
    and "opt (options c) ''target'' = JStr t" and "t \<noteq> []"
  shows "\<exists>d. destinationArgs wd c = Inr d
           \<and> args = JStr ''--target'' # JStr (map upperChar t)
                      # switchArgs c version @ d @ fileArgs c"
proof -
  from assms(1) obtain ms ts d where p: "moduleArgs c = Inr ms" "targetArgs c = Inr ts"
      "destinationArgs wd c = Inr d"
      "args = ms @ ts @ switchArgs c version @ d @ fileArgs c"
    unfolding buildTscArguments_Inr by blast
  from p(1) assms(2) have "ms = []"
    by (simp add: moduleArgs_def)
  moreover from targetArgs_Inr [OF p(2)] assms(3,4) have "ts = [JStr ''--target'', JStr (map upperChar t)]"
    by simp
  ultimately show ?thesis using p(3,4) by simp
qed

text \<open>
  Claim C9. For a compiler holding the options the constructor makes from an options
  object: if the object has no \<^verbatim>\<open>module\<close>, the stored module kind is \<^verbatim>\<open>commonjs\<close> and
  the argument list starts with \<^verbatim>\<open>--module commonjs\<close>, unless the object's \<^verbatim>\<open>target\<close> is
  the string \<^verbatim>\<open>ES6\<close>, in which case the stored module kind is \<^verbatim>\<open>null\<close> and the list
  is \<^verbatim>\<open>--target ES6\<close> followed by what the lines after line 70 add: line 69 adds
  nothing, so there is no \<^verbatim>\<open>--module\<close> flag. If the object gives a module kind (a string
  that is not empty), it is stored and the list starts with \<^verbatim>\<open>--module\<close> and the kind in
  lower case.
\<close>

theorem constructor_module:
  assumes "options c = options (Compiler fs (Some os))"
  shows "(os ''module'' = None \<longrightarrow>
            (if opt os ''target'' = JStr ''ES6''
             then opt (options c) ''module'' = JNull
                \<and> (\<forall>wd version args. buildTscArguments wd c version = Inr args \<longrightarrow>
                      (\<exists>d. destinationArgs wd c = Inr d
                         \<and> args = JStr ''--target'' # JStr ''ES6''
                                    # switchArgs c version @ d @ fileArgs c))
             else opt (options c) ''module'' = JStr ''commonjs''
                \<and> (\<forall>wd version args. buildTscArguments wd c version = Inr args \<longrightarrow>
                      (\<exists>rest. args = JStr ''--module'' # JStr ''commonjs'' # rest))))
       \<and> (\<forall>m. os ''module'' = Some (JStr m) \<and> m \<noteq> [] \<longrightarrow>
            opt (options c) ''module'' = JStr m
          \<and> (\<forall>wd version args. buildTscArguments wd c version = Inr args \<longrightarrow>
                (\<exists>rest. args = JStr ''--module'' # JStr (map lowerChar m) # rest)))"
proof (intro conjI impI allI)
  assume unset: "os ''module'' = None"
  show "if opt os ''target'' = JStr ''ES6''
        then opt (options c) ''module'' = JNull
           \<and> (\<forall>wd version args. buildTscArguments wd c version = Inr args \<longrightarrow>
                 (\<exists>d. destinationArgs wd c = Inr d
                    \<and> args = JStr ''--target'' # JStr ''ES6''
                               # switchArgs c version @ d @ fileArgs c))
        else opt (options c) ''module'' = JStr ''commonjs''
           \<and> (\<forall>wd version args. buildTscArguments wd c version = Inr args \<longrightarrow>
                 (\<exists>rest. args = JStr ''--module'' # JStr ''commonjs'' # rest))"
  proof (cases "opt os ''target'' = JStr ''ES6''")
    case True
    have up: "map upperChar ''ES6'' = ''ES6''" by code_simp
    have m: "opt (options c) ''module'' = JNull"
      using unset True by (simp add: assms Compiler_module)
    from True have "os ''target'' = Some (JStr ''ES6'')"
      by (simp add: opt_def split: option.splits)
    then have t: "opt (options c) ''target'' = JStr ''ES6''"
      by (simp add: assms Compiler_target)
    have "\<exists>d. destinationArgs wd c = Inr d
            \<and> args = JStr ''--target'' # JStr ''ES6'' # switchArgs c version @ d @ fileArgs c"
      if "buildTscArguments wd c version = Inr args" for wd version args
      using buildTscArguments_target_only [OF that _ t] m up by simp
    with m True show ?thesis by simp
  next
    case False
    have low: "map lowerChar ''commonjs'' = ''commonjs''" by code_simp
    have m: "opt (options c) ''module'' = JStr ''commonjs''"
      using unset False by (simp add: assms Compiler_module)
    have "\<exists>rest. args = JStr ''--module'' # JStr ''commonjs'' # rest"
      if "buildTscArguments wd c version = Inr args" for wd version args
      using buildTscArguments_module_first [OF that m] low by simp
    with m False show ?thesis by simp
  qed
next
  fix m
  assume "os ''module'' = Some (JStr m) \<and> m \<noteq> []"
  then show "opt (options c) ''module'' = JStr m"
    by (simp add: assms Compiler_module)
next
  fix m wd version args
  assume a: "os ''module'' = Some (JStr m) \<and> m \<noteq> []"
    and b: "buildTscArguments wd c version = Inr args"
  from a have "opt (options c) ''module'' = JStr m"
    by (simp add: assms Compiler_module)
  with a b show "\<exists>rest. args = JStr ''--module'' # JStr (map lowerChar m) # rest"
    using buildTscArguments_module_first by blast
qed


lemma Compiler_fields:
  "tempDestination (Compiler fs opts) = None" "treeKeeperFile (Compiler fs opts) = None"
  "sourceFiles (Compiler fs opts) = (case fs of None \<Rightarrow> [] | Some xs \<Rightarrow> xs)"
  by (simp_all add: Compiler_def Let_def)

lemma buildTscArguments_returns:
  assumes "tempDestination c = None"
    and "opt (options c) ''module'' = JNull \<or> (\<exists>m. opt (options c) ''module'' = JStr m)"
    and "\<exists>t. opt (options c) ''target'' = JStr t"
  shows "\<exists>args. buildTscArguments wd c version = Inr args"
proof -
  have "\<exists>d. destinationArgs wd c = Inr d"
    using assms(1) by (simp add: destinationArgs_def)
  moreover have "\<exists>m. moduleArgs c = Inr m"
    using assms(2) by (auto simp: moduleArgs_def)
  moreover have "\<exists>t. targetArgs c = Inr t"
    using assms(3) by (auto simp: targetArgs_def)
  ultimately show ?thesis
    by (auto simp: buildTscArguments_Inr)
qed

theorem constructor_module_witness:
  "(\<exists>args rest.
      buildTscArguments ''/w'' (Compiler None (Some [''target'' \<mapsto> JStr ''ES6''])) JUndefined
        = Inr args
    \<and> args = JStr ''--target'' # JStr ''ES6'' # rest)
   \<and> (\<exists>args rest.
      buildTscArguments ''/w'' (Compiler None (Some [''target'' \<mapsto> JStr ''ES5''])) JUndefined
        = Inr args
    \<and> args = JStr ''--module'' # JStr ''commonjs'' # rest)
   \<and> (\<exists>args rest.
      buildTscArguments ''/w''
        (Compiler None (Some [''target'' \<mapsto> JStr ''ES6'', ''module'' \<mapsto> JStr ''AMD''])) JUndefined
        = Inr args
    \<and> args = JStr ''--module'' # JStr ''amd'' # rest)"
proof (intro conjI)
  let ?os = "[''target'' \<mapsto> JStr ''ES6'']"
  let ?c = "Compiler None (Some ?os)"
  have "\<exists>args. buildTscArguments ''/w'' ?c JUndefined = Inr args"
  proof (rule buildTscArguments_returns)
    show "tempDestination ?c = None"
      by (simp add: Compiler_fields)
    show "opt (options ?c) ''module'' = JNull \<or> (\<exists>m. opt (options ?c) ''module'' = JStr m)"
      by (simp add: Compiler_module opt_def [of ?os])
    show "\<exists>t. opt (options ?c) ''target'' = JStr t"
      by (simp add: Compiler_target)
  qed
  then obtain args where args: "buildTscArguments ''/w'' ?c JUndefined = Inr args" ..
  have "?os ''module'' = None" "opt ?os ''target'' = JStr ''ES6''"
    by (simp_all add: opt_def)
  with constructor_module [of ?c None ?os, OF refl] args
  have "\<exists>d. destinationArgs ''/w'' ?c = Inr d
          \<and> args = JStr ''--target'' # JStr ''ES6'' # switchArgs ?c JUndefined @ d @ fileArgs ?c"
    by simp
  with args show "\<exists>args rest. buildTscArguments ''/w'' ?c JUndefined = Inr args
      \<and> args = JStr ''--target'' # JStr ''ES6'' # rest"
    by blast
next
  let ?os = "[''target'' \<mapsto> JStr ''ES5'']"
  let ?c = "Compiler None (Some ?os)"
  have "\<exists>args. buildTscArguments ''/w'' ?c JUndefined = Inr args"
  proof (rule buildTscArguments_returns)
    show "tempDestination ?c = None"
      by (simp add: Compiler_fields)
    show "opt (options ?c) ''module'' = JNull \<or> (\<exists>m. opt (options ?c) ''module'' = JStr m)"
      by (simp add: Compiler_module opt_def [of ?os])
    show "\<exists>t. opt (options ?c) ''target'' = JStr t"
      by (simp add: Compiler_target)
  qed
  then obtain args where args: "buildTscArguments ''/w'' ?c JUndefined = Inr args" ..
  have "?os ''module'' = None" "opt ?os ''target'' \<noteq> JStr ''ES6''"
    by (simp_all add: opt_def)
  with constructor_module [of ?c None ?os, OF refl] args
  have "\<exists>rest. args = JStr ''--module'' # JStr ''commonjs'' # rest"
    by simp
  with args show "\<exists>args rest. buildTscArguments ''/w'' ?c JUndefined = Inr args
      \<and> args = JStr ''--module'' # JStr ''commonjs'' # rest"
    by blast
next
  let ?os = "[''target'' \<mapsto> JStr ''ES6'', ''module'' \<mapsto> JStr ''AMD'']"
  let ?c = "Compiler None (Some ?os)"
  have low: "map lowerChar ''AMD'' = ''amd''" by code_simp
  have "\<exists>args. buildTscArguments ''/w'' ?c JUndefined = Inr args"
  proof (rule buildTscArguments_returns)
    show "tempDestination ?c = None"
      by (simp add: Compiler_fields)
    show "opt (options ?c) ''module'' = JNull \<or> (\<exists>m. opt (options ?c) ''module'' = JStr m)"
      by (simp add: Compiler_module opt_def [of ?os])
    show "\<exists>t. opt (options ?c) ''target'' = JStr t"
      by (simp add: Compiler_target)
  qed
  then obtain args where args: "buildTscArguments ''/w'' ?c JUndefined = Inr args" ..
  have "?os ''module'' = Some (JStr ''AMD'') \<and> ''AMD'' \<noteq> []"
    by simp
  with constructor_module [of ?c None ?os, OF refl] args
  have "\<exists>rest. args = JStr ''--module'' # JStr (map lowerChar ''AMD'') # rest"
    by blast
  with args show "\<exists>args rest. buildTscArguments ''/w'' ?c JUndefined = Inr args
      \<and> args = JStr ''--module'' # JStr ''amd'' # rest"
    unfolding low by blast
qed

lemma switchArgs_sourcemap:
  "truthy (opt (options c) ''sourceMap'') \<Longrightarrow> JStr ''--sourcemap'' \<in> set (switchArgs c version)"
  by (simp add: switchArgs_def Let_def)

text \<open>
  Claim C10. For a compiler holding the options the constructor makes from an options
  object: the stored \<^verbatim>\<open>sourceMap\<close> is \<^verbatim>\<open>options.sourceMap || options.sourcemap\<close>, and
  there is no \<^verbatim>\<open>sourcemap\<close> key any more. So if either spelling is set, every argument
  list contains \<^verbatim>\<open>--sourcemap\<close>, and the source-map transform is in the output pipeline
  exactly when \<^verbatim>\<open>sourceRoot\<close> is not set; it is, in particular, when the object does
  not configure \<^verbatim>\<open>sourceRoot\<close>.
\<close>

theorem constructor_sourceMap:
  assumes "options c = options (Compiler fs (Some os))"
  shows "opt (options c) ''sourceMap'' = js_or (opt os ''sourceMap'') (opt os ''sourcemap'')
       \<and> options c ''sourcemap'' = None
       \<and> (truthy (opt os ''sourceMap'') \<or> truthy (opt os ''sourcemap'') \<longrightarrow>
            (\<forall>wd version args. buildTscArguments wd c version = Inr args \<longrightarrow>
               JStr ''--sourcemap'' \<in> set args)
          \<and> (FixSourcemapPath \<in> set (outputTransforms c)
               \<longleftrightarrow> \<not> truthy (opt (options c) ''sourceRoot''))
          \<and> (os ''sourceRoot'' = None \<longrightarrow> FixSourcemapPath \<in> set (outputTransforms c)))"
proof (intro conjI impI)
  show stored: "opt (options c) ''sourceMap'' = js_or (opt os ''sourceMap'') (opt os ''sourcemap'')"
    by (simp add: assms Compiler_sourceMap)
  show "options c ''sourcemap'' = None"
    by (simp add: assms Compiler_sourcemap_removed)
  assume "truthy (opt os ''sourceMap'') \<or> truthy (opt os ''sourcemap'')"
  then have on: "truthy (opt (options c) ''sourceMap'')"
    unfolding stored by (auto simp: js_or_def)
  show "\<forall>wd version args. buildTscArguments wd c version = Inr args \<longrightarrow>
          JStr ''--sourcemap'' \<in> set args"
    using switchArgs_sourcemap [OF on] by (auto simp: buildTscArguments_Inr)
  show "FixSourcemapPath \<in> set (outputTransforms c)
          \<longleftrightarrow> \<not> truthy (opt (options c) ''sourceRoot'')"
    using on by (simp add: outputTransforms_def)
  show "FixSourcemapPath \<in> set (outputTransforms c)" if "os ''sourceRoot'' = None"
    using on that by (simp add: outputTransforms_def assms Compiler_sourceRoot)
qed

theorem constructor_sourceMap_witness:
  "opt (options (Compiler None (Some [''sourcemap'' \<mapsto> JBool True]))) ''sourceMap'' = JBool True
   \<and> options (Compiler None (Some [''sourcemap'' \<mapsto> JBool True])) ''sourcemap'' = None
   \<and> (\<exists>args. buildTscArguments ''/w'' (Compiler None (Some [''sourcemap'' \<mapsto> JBool True])) JUndefined
                 = Inr args \<and> JStr ''--sourcemap'' \<in> set args)
   \<and> FixSourcemapPath \<in> set (outputTransforms (Compiler None (Some [''sourcemap'' \<mapsto> JBool True])))"
proof -
  let ?os = "[''sourcemap'' \<mapsto> JBool True]"
  let ?c = "Compiler None (Some ?os)"
  have either: "truthy (opt ?os ''sourceMap'') \<or> truthy (opt ?os ''sourcemap'')"
    by (simp add: opt_def)
  have "\<exists>args. buildTscArguments ''/w'' ?c JUndefined = Inr args"
  proof (rule buildTscArguments_returns)
    show "tempDestination ?c = None"
      by (simp add: Compiler_fields)
    show "opt (options ?c) ''module'' = JNull \<or> (\<exists>m. opt (options ?c) ''module'' = JStr m)"
      by (simp add: Compiler_module opt_def [of ?os])
    show "\<exists>t. opt (options ?c) ''target'' = JStr t"
      by (simp add: Compiler_target)
  qed
  then obtain args where args: "buildTscArguments ''/w'' ?c JUndefined = Inr args" ..
  have root: "?os ''sourceRoot'' = None"
    by simp
  have stored: "js_or (opt ?os ''sourceMap'') (opt ?os ''sourcemap'') = JBool True"
    by (simp add: js_or_def opt_def)
  from constructor_sourceMap [of ?c None ?os, OF refl] either args root stored
  show ?thesis by auto
qed

section \<open>The abort protocol\<close>

lemma abortAll_idle:
  "running r = 0 \<Longrightarrow>
     abortAll (Some cb) r
       = r\<lparr> aborted := False, abortCallbacks := [], fired := fired r @ abortCallbacks r @ [cb] \<rparr>"
  by (simp add: abortAll_def allAborted_def)

lemma abortAll_busy:
  "running r \<noteq> 0 \<Longrightarrow>
     abortAll (Some cb) r = r\<lparr> aborted := True, abortCallbacks := abortCallbacks r @ [cb] \<rparr>"
  by (simp add: abortAll_def)

lemma regRun_snoc: "regRun r (es @ [e]) = regStep (regRun r es) e"
  by (simp add: regRun_def)

lemma regStep_waiting:
  assumes "aborted r" and "0 < running r" and "0 < running (regStep r e)"
  shows "aborted (regStep r e) \<and> fired (regStep r e) = fired r
       \<and> (\<exists>q. abortCallbacks (regStep r e) = abortCallbacks r @ q)"
proof (cases e)
  case (AbortAll callback)
  with assms show ?thesis
    by (cases callback) (simp_all add: abortAll_def)
next
  case Started
  then show ?thesis using assms by (simp add: start_def)
next
  case Ended
  then show ?thesis using assms by (simp add: onEnd_def allAborted_def Let_def split: if_splits)
qed

lemma regRun_waiting:
  assumes "aborted r"
    and "\<forall>n \<le> length es. 0 < running (regRun r (take n es))"
  shows "aborted (regRun r es) \<and> fired (regRun r es) = fired r
       \<and> (\<exists>q. abortCallbacks (regRun r es) = abortCallbacks r @ q)"
  using assms(2)
proof (induction es rule: rev_induct)
  case Nil
  show ?case using assms(1) by (simp add: regRun_def)
next
  case (snoc e es)
  have pre: "\<forall>n \<le> length es. 0 < running (regRun r (take n es))"
  proof (intro allI impI)
    fix n assume "n \<le> length es"
    then show "0 < running (regRun r (take n es))"
      using snoc.prems [rule_format, of n] by simp
  qed
  note ih = snoc.IH [OF pre]
  have here: "0 < running (regRun r es)"
    using pre [rule_format, of "length es"] by simp
  have after: "0 < running (regStep (regRun r es) e)"
    using snoc.prems [rule_format, of "length (es @ [e])"] by (simp add: regRun_snoc)
  from regStep_waiting [OF _ here after] ih
  show ?case by (auto simp: regRun_snoc)
qed

lemma onEnd_drains:
  assumes "aborted r" and "running r = 1"
  shows "onEnd r = r\<lparr> running := 0, aborted := False, abortCallbacks := [],
                      fired := fired r @ abortCallbacks r \<rparr>"
  using assms by (simp add: onEnd_def allAborted_def)

lemma regRun_not_aborted:
  assumes "\<not> aborted r" and "\<forall>e \<in> set es. e = Started \<or> e = Ended"
  shows "\<not> aborted (regRun r es)"
  using assms(2)
proof (induction es rule: rev_induct)
  case Nil
  show ?case using assms(1) by (simp add: regRun_def)
next
  case (snoc e es)
  then have "\<not> aborted (regRun r es)" and "e = Started \<or> e = Ended"
    by simp_all
  then show ?case
    by (auto simp: regRun_snoc start_def onEnd_def)
qed

text \<open>
  Claim C8. \<^verbatim>\<open>abortAll(callback)\<close> on a registry with no running invocation calls the
  queued callbacks and the new one at once, in this order, and leaves the flag cleared
  and the queue empty. With a running invocation it sets the flag and queues the
  callback. From then on, whatever happens to the registry (more abort requests,
  invocations starting and ending), as long as the counter stays above zero the flag
  stays set, no callback is called and the callback stays queued; and when the counter is
  one, the next \<^verbatim>\<open>end\<close> event brings it to zero, calls the whole queue, clears the flag and
  empties the queue. After that, however many invocations start and end, the flag reads
  false and \<^verbatim>\<open>checkAborted\<close> lets an invocation pass, until somebody asks for an abort
  again. Callbacks are labels: what a callback itself does to the registry is not part of
  the step.
\<close>

theorem abortAll_protocol:
  fixes r :: "'cb registry"
  shows "(running r = 0 \<longrightarrow>
            abortAll (Some cb) r
              = r\<lparr> aborted := False, abortCallbacks := [],
                   fired := fired r @ abortCallbacks r @ [cb] \<rparr>)
       \<and> (0 < running r \<longrightarrow>
            abortAll (Some cb) r
              = r\<lparr> aborted := True, abortCallbacks := abortCallbacks r @ [cb] \<rparr>
          \<and> (\<forall>es. (\<forall>n \<le> length es. 0 < running (regRun (abortAll (Some cb) r) (take n es))) \<longrightarrow>
                (let r1 = regRun (abortAll (Some cb) r) es
                 in aborted r1 \<and> fired r1 = fired r
                  \<and> (\<exists>later. abortCallbacks r1 = abortCallbacks r @ [cb] @ later)
                  \<and> (running r1 = 1 \<longrightarrow>
                       (let r2 = onEnd r1
                        in running r2 = 0 \<and> \<not> aborted r2 \<and> abortCallbacks r2 = []
                         \<and> fired r2 = fired r @ abortCallbacks r1
                         \<and> (\<forall>es'. (\<forall>e \<in> set es'. e = Started \<or> e = Ended) \<longrightarrow>
                               \<not> isAborted (regRun r2 es')
                             \<and> (\<forall>s :: 'cb cstate. reg s = regRun r2 es' \<longrightarrow>
                                   checkAborted s = (Done None, s))))))))"
proof (intro conjI impI allI)
  assume "running r = 0"
  then show "abortAll (Some cb) r
              = r\<lparr> aborted := False, abortCallbacks := [],
                   fired := fired r @ abortCallbacks r @ [cb] \<rparr>"
    by (rule abortAll_idle)
next
  assume "0 < running r"
  then show "abortAll (Some cb) r
              = r\<lparr> aborted := True, abortCallbacks := abortCallbacks r @ [cb] \<rparr>"
    by (simp add: abortAll_busy)
next
  fix es
  assume busy: "0 < running r"
    and wait: "\<forall>n \<le> length es. 0 < running (regRun (abortAll (Some cb) r) (take n es))"
  let ?q = "abortAll (Some cb) r"
  let ?r1 = "regRun ?q es"
  have q: "?q = r\<lparr> aborted := True, abortCallbacks := abortCallbacks r @ [cb] \<rparr>"
    using busy by (simp add: abortAll_busy)
  have "aborted ?q" by (simp add: q)
  from regRun_waiting [OF this wait]
  have r1: "aborted ?r1" "fired ?r1 = fired r"
      "\<exists>later. abortCallbacks ?r1 = abortCallbacks r @ [cb] @ later"
    by (simp_all add: q)
  have drained: "running (onEnd ?r1) = 0 \<and> \<not> aborted (onEnd ?r1) \<and> abortCallbacks (onEnd ?r1) = []
      \<and> fired (onEnd ?r1) = fired r @ abortCallbacks ?r1
      \<and> (\<forall>es'. (\<forall>e \<in> set es'. e = Started \<or> e = Ended) \<longrightarrow>
             \<not> isAborted (regRun (onEnd ?r1) es')
           \<and> (\<forall>s :: 'cb cstate. reg s = regRun (onEnd ?r1) es' \<longrightarrow>
                 checkAborted s = (Done None, s)))"
    if one: "running ?r1 = 1"
  proof -
    have e: "onEnd ?r1 = ?r1\<lparr> running := 0, aborted := False, abortCallbacks := [],
                      fired := fired ?r1 @ abortCallbacks ?r1 \<rparr>"
      using r1(1) one by (rule onEnd_drains)
    have "\<not> isAborted (regRun (onEnd ?r1) es')
           \<and> (\<forall>s :: 'cb cstate. reg s = regRun (onEnd ?r1) es' \<longrightarrow> checkAborted s = (Done None, s))"
      if "\<forall>e \<in> set es'. e = Started \<or> e = Ended" for es'
    proof -
      have "\<not> aborted (regRun (onEnd ?r1) es')"
        by (rule regRun_not_aborted [OF _ that]) (simp add: e)
      then show ?thesis by (simp add: isAborted_def checkAborted_def)
    qed
    then show ?thesis using r1(2) by (simp add: e)
  qed
  show "let r1 = regRun (abortAll (Some cb) r) es
                 in aborted r1 \<and> fired r1 = fired r
                  \<and> (\<exists>later. abortCallbacks r1 = abortCallbacks r @ [cb] @ later)
                  \<and> (running r1 = 1 \<longrightarrow>
                       (let r2 = onEnd r1
                        in running r2 = 0 \<and> \<not> aborted r2 \<and> abortCallbacks r2 = []
                         \<and> fired r2 = fired r @ abortCallbacks r1
                         \<and> (\<forall>es'. (\<forall>e \<in> set es'. e = Started \<or> e = Ended) \<longrightarrow>
                               \<not> isAborted (regRun r2 es')
                             \<and> (\<forall>s :: 'cb cstate. reg s = regRun r2 es' \<longrightarrow>
                                   checkAborted s = (Done None, s)))))"
    unfolding Let_def using r1 drained by blast
qed

theorem abortAll_protocol_witness:
  "abortAll (Some (7::nat)) initialRegistry
     = \<lparr> running = 0, aborted = False, abortCallbacks = [], fired = [7] \<rparr>
   \<and> abortAll (Some (7::nat)) \<lparr> running = 1, aborted = False, abortCallbacks = [], fired = [] \<rparr>
       = \<lparr> running = 1, aborted = True, abortCallbacks = [7], fired = [] \<rparr>
   \<and> fired (regRun (abortAll (Some (7::nat))
         \<lparr> running = 1, aborted = False, abortCallbacks = [], fired = [] \<rparr>) [Started, Ended]) = []
   \<and> fired (onEnd (regRun (abortAll (Some (7::nat))
         \<lparr> running = 1, aborted = False, abortCallbacks = [], fired = [] \<rparr>) [Started, Ended])) = [7]
   \<and> \<not> isAborted (regRun (onEnd (regRun (abortAll (Some (7::nat))
         \<lparr> running = 1, aborted = False, abortCallbacks = [], fired = [] \<rparr>) [Started, Ended]))
         [Started])"
proof -
  let ?r = "\<lparr> running = 1, aborted = False, abortCallbacks = [], fired = [] \<rparr> :: nat registry"
  let ?es = "[Started, Ended] :: nat reg_event list"
  let ?q = "abortAll (Some 7) ?r"
  have idle: "running (initialRegistry :: nat registry) = 0"
    by (simp add: initialRegistry_def)
  have busy: "0 < running ?r"
    by simp
  have run: "regRun ?q [] = \<lparr> running = 1, aborted = True, abortCallbacks = [7], fired = [] \<rparr>"
    "regRun ?q [Started] = \<lparr> running = 2, aborted = True, abortCallbacks = [7], fired = [] \<rparr>"
    "regRun ?q ?es = \<lparr> running = 1, aborted = True, abortCallbacks = [7], fired = [] \<rparr>"
    by (simp_all add: regRun_def abortAll_def start_def onEnd_def)
  have wait: "\<forall>n \<le> length ?es. 0 < running (regRun ?q (take n ?es))"
  proof (intro allI impI)
    fix n assume "n \<le> length ?es"
    then have "n = 0 \<or> n = 1 \<or> n = 2" by auto
    then show "0 < running (regRun ?q (take n ?es))"
      using run by auto
  qed
  have one: "running (regRun ?q ?es) = 1"
    by (simp add: run)
  have quiet: "\<forall>e \<in> set [Started :: nat reg_event]. e = Started \<or> e = Ended"
    by simp
  from abortAll_protocol [of initialRegistry "7::nat"] idle
  have a: "abortAll (Some (7::nat)) initialRegistry
     = \<lparr> running = 0, aborted = False, abortCallbacks = [], fired = [7] \<rparr>"
    by (simp add: initialRegistry_def)
  from abortAll_protocol [of ?r "7::nat"] busy
  have b: "?q = ?r\<lparr> aborted := True, abortCallbacks := abortCallbacks ?r @ [7] \<rparr>"
    and c: "\<forall>es. (\<forall>n \<le> length es. 0 < running (regRun ?q (take n es))) \<longrightarrow>
                (let r1 = regRun ?q es
                 in aborted r1 \<and> fired r1 = fired ?r
                  \<and> (\<exists>later. abortCallbacks r1 = abortCallbacks ?r @ [7] @ later)
                  \<and> (running r1 = 1 \<longrightarrow>
                       (let r2 = onEnd r1
                        in running r2 = 0 \<and> \<not> aborted r2 \<and> abortCallbacks r2 = []
                         \<and> fired r2 = fired ?r @ abortCallbacks r1
                         \<and> (\<forall>es'. (\<forall>e \<in> set es'. e = Started \<or> e = Ended) \<longrightarrow>
                               \<not> isAborted (regRun r2 es')
                             \<and> (\<forall>s :: nat cstate. reg s = regRun r2 es' \<longrightarrow>
                                   checkAborted s = (Done None, s))))))"
    by blast+
  from mp [OF spec [OF c, of ?es] wait] one
  have d: "fired (regRun ?q ?es) = []"
    "fired (onEnd (regRun ?q ?es)) = abortCallbacks (regRun ?q ?es)"
    "\<forall>es'. (\<forall>e \<in> set es'. e = Started \<or> e = Ended) \<longrightarrow>
        \<not> isAborted (regRun (onEnd (regRun ?q ?es)) es')"
    unfolding Let_def by simp_all
  from d(3) quiet have e: "\<not> isAborted (regRun (onEnd (regRun ?q ?es)) [Started])"
    by blast
  from d(2) have f: "fired (onEnd (regRun ?q ?es)) = [7]"
    by (simp add: run(3))
  from a b d(1) f e show ?thesis
    by simp
qed

section \<open>The invocation\<close>

lemma trace_emit [simp]: "trace (emit e s) = trace s @ [e]"
  by (simp add: emit_def)

lemma comp_emit [simp]: "self (emit e s) = self s"
  by (simp add: emit_def)

lemma trace_await [simp]: "trace (await w k s) = trace s"
  by (simp add: await_def)

lemma comp_await [simp]: "self (await w k s) = self s"
  by (simp add: await_def)




lemma waterfall_invariant:
  assumes "\<And>t s. t \<in> set ts \<Longrightarrow> Q s \<Longrightarrow> Q (snd (t s))"
    and "Q s"
  shows "Q (snd (waterfall ts s))"
  using assms
proof (induction ts arbitrary: s)
  case Nil
  then show ?case by simp
next
  case (Cons t ts)
  have step: "Q (snd (t s))"
    using Cons.prems by simp
  obtain res s' where ts: "t s = (res, s')"
    by (cases "t s")
  show ?case
  proof (cases "res = Done None")
    case True
    have "Q (snd (waterfall ts s'))"
      using Cons.IH [of s'] Cons.prems(1) step ts by simp
    with ts True show ?thesis by simp
  next
    case False
    with ts step show ?thesis
      by (auto split: outcome.splits option.splits)
  qed
qed

text \<open>Up to the launch of the compiler the trace holds only the start and preparations.\<close>

lemma checkAborted_state: "snd (checkAborted s) = s"
  by (simp add: checkAborted_def)















lemma makeTempDestinationDir_keeps:
  "options (self (snd (makeTempDestinationDir w s))) = options (self s)
   \<and> sourceFiles (self (snd (makeTempDestinationDir w s))) = sourceFiles (self s)"
proof (cases "opt (options (self s)) ''tmpDir''")
  case (JStr tmpDir)
  then show ?thesis
    by (cases "tempMkdir w (path_resolve (processCwd w) [processCwd w, tmpDir])")
      (simp_all add: makeTempDestinationDir_def Let_def)
qed (simp_all add: makeTempDestinationDir_def)

lemma beforeKeeper_keeps:
  "options (self (snd (waterfall (beforeKeeper w) s))) = options (self s)
   \<and> sourceFiles (self (snd (waterfall (beforeKeeper w) s))) = sourceFiles (self s)"
proof (rule waterfall_invariant
    [where Q = "\<lambda>s'. options (self s') = options (self s) \<and> sourceFiles (self s') = sourceFiles (self s)"])
  fix t and s' :: "'a cstate"
  assume "t \<in> set (beforeKeeper w)"
    and "options (self s') = options (self s) \<and> sourceFiles (self s') = sourceFiles (self s)"
  then show "options (self (snd (t s'))) = options (self s)
      \<and> sourceFiles (self (snd (t s'))) = sourceFiles (self s)"
    using makeTempDestinationDir_keeps [of w s']
    by (auto simp: beforeKeeper_def checkAborted_state)
qed simp



section \<open>The path filter\<close>

















end
